theory Spec2Isabelle
  imports Complex_Main "HOL-Library.Sublist"
begin

section \<open>Mesh-house: the state-tracking core of the mesh visualizer (main.py)\<close>

text \<open>
  The development embeds the non-rendering part of class \<open>MeshVisualizer\<close>:
  \<open>handle_line\<close>, \<open>add_node\<close>, \<open>draw_connection\<close>, \<open>add_message\<close>,
  \<open>check_node_activity\<close> and the click handler made by \<open>make_node_click_handler\<close>.

  Conventions of the embedding.
  \<^item> A Python \<open>str\<close> is a \<open>string\<close>; a character is a code point below 256. The
    character classes below (\<open>str.isspace\<close>, \<open>str.lower\<close>, the class \<open>\d\<close>) are
    Python's on that range.
  \<^item> A \<open>datetime\<close> is the number of microseconds of local wall-clock time since a
    midnight taken as origin; the two calls of \<open>datetime.now()\<close> in \<open>handle_line\<close> and
    the one in \<open>check_node_activity\<close> are arguments.
  \<^item> Coordinates (Python floats) are idealised as real numbers.
  \<^item> A raised exception is the \<open>Inl\<close> branch of a sum.
  \<^item> The Qt scene only mirrors the dictionaries of the visualizer and is not part of the state.
\<close>

subsection \<open>Python strings\<close>

datatype py_error = KeyError | IndexError

definition py_isspace :: "char \<Rightarrow> bool" where
  "py_isspace c =
     (let n = (of_char c :: nat)
      in (9 \<le> n \<and> n \<le> 13) \<or> (28 \<le> n \<and> n \<le> 32) \<or> n = 133 \<or> n = 160)"

definition py_lower_char :: "char \<Rightarrow> char" where
  "py_lower_char c =
     (let n = (of_char c :: nat)
      in if (65 \<le> n \<and> n \<le> 90) \<or> (192 \<le> n \<and> n \<le> 222 \<and> n \<noteq> 215)
         then char_of (n + 32) else c)"

definition py_lower :: "string \<Rightarrow> string" where
  "py_lower s = map py_lower_char s"

definition py_strip :: "string \<Rightarrow> string" where
  "py_strip s = rev (dropWhile py_isspace (rev (dropWhile py_isspace s)))"

definition startswith :: "string \<Rightarrow> string \<Rightarrow> bool" where
  "startswith s p = (take (length p) s = p)"

text \<open>\<open>s.split(None, 1)\<close>: at most one split, on a run of whitespace.\<close>

definition py_split_ws1 :: "string \<Rightarrow> string list" where
  "py_split_ws1 s =
     (let s1 = dropWhile py_isspace s
      in if s1 = [] then []
         else (let tok = takeWhile (\<lambda>c. \<not> py_isspace c) s1;
                   rest = dropWhile py_isspace (dropWhile (\<lambda>c. \<not> py_isspace c) s1)
               in if rest = [] then [tok] else [tok, rest]))"

text \<open>\<open>s.split(sep)\<close> for a separator of one character.\<close>

fun py_split_sep :: "char \<Rightarrow> string \<Rightarrow> string list" where
  "py_split_sep sep [] = [[]]"
| "py_split_sep sep (c # cs) =
     (if c = sep then [] # py_split_sep sep cs
      else (case py_split_sep sep cs of
              [] \<Rightarrow> [[c]]
            | f # fs \<Rightarrow> (c # f) # fs))"

text \<open>\<open>xs[i]\<close> for an index that is not negative.\<close>

definition py_index :: "'a list \<Rightarrow> nat \<Rightarrow> py_error + 'a" where
  "py_index xs i = (if i < length xs then Inr (xs ! i) else Inl IndexError)"

subsection \<open>The regular expression of \<open>handle_line\<close>\<close>

text \<open>
  \<open>re.search(r"from ([\da-f:]+).*? (.+)$", line)\<close>, as the backtracking matcher runs it:
  start positions from left to right, the greedy address class from its longest run down,
  the lazy gap from the empty string up. The result holds groups 1 and 2.
\<close>

definition re_class :: "char \<Rightarrow> bool" where
  "re_class c = (c \<in> set ''0123456789abcdef:'')"

definition re_dot :: "char \<Rightarrow> bool" where
  "re_dot c = (c \<noteq> CHR 0x0A)"

text \<open>\<open>(.+)$\<close>: the longest run of \<open>.\<close>, which must end the string or stand before its
  final newline (a shorter run is followed by a character \<open>.\<close> matches, where \<open>$\<close> fails).\<close>

definition re_tail :: "string \<Rightarrow> string option" where
  "re_tail r =
     (let m = takeWhile re_dot r; z = dropWhile re_dot r
      in if m \<noteq> [] \<and> (z = [] \<or> z = [CHR 0x0A]) then Some m else None)"

text \<open>\<open>.*? (.+)$\<close>: the gap is tried empty first and grows by one character at a time.\<close>

fun re_gap :: "string \<Rightarrow> string option" where
  "re_gap [] = None"
| "re_gap (c # r) =
     (case (if c = CHR '' '' then re_tail r else None) of
        Some m \<Rightarrow> Some m
      | None \<Rightarrow> if re_dot c then re_gap r else None)"

text \<open>\<open>([\da-f:]+)\<close> followed by the rest: \<open>n\<close> characters of the class, then \<open>n - 1\<close>, ...\<close>

fun re_addr :: "nat \<Rightarrow> string \<Rightarrow> (string \<times> string) option" where
  "re_addr 0 r = None"
| "re_addr (Suc n) r =
     (case re_gap (drop (Suc n) r) of
        Some m \<Rightarrow> Some (take (Suc n) r, m)
      | None \<Rightarrow> re_addr n r)"

definition re_match_here :: "string \<Rightarrow> (string \<times> string) option" where
  "re_match_here r =
     (if startswith r ''from ''
      then re_addr (length (takeWhile re_class (drop 5 r))) (drop 5 r)
      else None)"

fun re_search :: "string \<Rightarrow> (string \<times> string) option" where
  "re_search [] = re_match_here []"
| "re_search (c # r) =
     (case re_match_here (c # r) of
        Some g \<Rightarrow> Some g
      | None \<Rightarrow> re_search r)"

subsection \<open>Parsing in \<open>handle_line\<close>\<close>

text \<open>Lines 127 to 130: the match, \<open>node_addr = match.group(1)\<close> and
  \<open>message = match.group(2).strip()\<close>.\<close>

definition handle_line_match :: "string \<Rightarrow> (string \<times> string) option" where
  "handle_line_match line =
     (case re_search line of
        None \<Rightarrow> None
      | Some (g1, g2) \<Rightarrow> Some (g1, py_strip g2))"

text \<open>Lines 133 to 138: the override for simulated nodes.\<close>

definition handle_line_simulate :: "string \<Rightarrow> string \<Rightarrow> py_error + (string \<times> string)" where
  "handle_line_simulate node_addr message =
     (if startswith (py_lower message) ''simulate:''
      then (let parts = py_split_ws1 message
            in if length parts = 2
               then (case py_index (py_split_sep (CHR '':'') (parts ! 0)) 1 of
                       Inl e \<Rightarrow> Inl e
                     | Inr sim_id \<Rightarrow> Inr (''fd58:sim::'' @ sim_id, parts ! 1))
               else Inr (node_addr, message))
      else Inr (node_addr, message))"

text \<open>The effective address and message of a line: \<open>None\<close> when the line does not match.\<close>

definition handle_line_parse :: "string \<Rightarrow> py_error + (string \<times> string) option" where
  "handle_line_parse line =
     (case handle_line_match line of
        None \<Rightarrow> Inr None
      | Some (node_addr, message) \<Rightarrow>
          (case handle_line_simulate node_addr message of
             Inl e \<Rightarrow> Inl e
           | Inr p \<Rightarrow> Inr (Some p)))"

subsection \<open>The state of the visualizer\<close>

type_synonym point = "real \<times> real"

type_synonym datetime = int

datatype colour = Orange | Skyblue | Red

record ellipse_item =
  brush :: colour
  item_pos :: point
  item_data :: string

record text_item =
  label_text :: string
  label_pos :: point

record line_item =
  line_x1 :: real
  line_y1 :: real
  line_x2 :: real
  line_y2 :: real

text \<open>The dictionaries of \<open>__init__\<close> (lines 97 to 103). \<open>nodes\<close> keeps the order of
  insertion, which \<open>len\<close> and the loop of \<open>check_node_activity\<close> read. A dialog is the list
  of the rows of its table.\<close>

record visualizer =
  nodes :: "(string \<times> ellipse_item \<times> text_item) list"
  positions :: "string \<rightharpoonup> point"
  edges :: "string \<rightharpoonup> line_item"
  center_node :: "string option"
  message_logs :: "string \<rightharpoonup> (string \<times> string) list"
  dialogs :: "string \<rightharpoonup> (string \<times> string) list"
  last_seen :: "string \<rightharpoonup> datetime"

definition NODE_RADIUS :: real where
  "NODE_RADIUS = 30"

definition CENTER_POS :: point where
  "CENTER_POS = (450, 300)"

definition MAX_NODES :: nat where
  "MAX_NODES = 12"

text \<open>\<open>INACTIVE_TIMEOUT\<close> is 15 seconds; \<open>total_seconds()\<close> of a difference of
  \<open>d\<close> microseconds exceeds it exactly when \<open>d\<close> exceeds \<open>15000000\<close>.\<close>

definition INACTIVE_TIMEOUT :: int where
  "INACTIVE_TIMEOUT = 15"

definition leader_addr :: string where
  "leader_addr = ''fd58:47f8:cd8:54c4:0:ff:fe00:fc00''"

definition radians :: "real \<Rightarrow> real" where
  "radians d = d * (pi / 180)"

definition two_digits :: "int \<Rightarrow> string" where
  "two_digits n = [''0123456789'' ! nat (n div 10), ''0123456789'' ! nat (n mod 10)]"

text \<open>\<open>strftime("%H:%M:%S")\<close>.\<close>

definition strftime_HMS :: "datetime \<Rightarrow> string" where
  "strftime_HMS t =
     (let secs = t div 1000000
      in two_digits ((secs div 3600) mod 24) @ '':'' @ two_digits ((secs div 60) mod 60)
         @ '':'' @ two_digits (secs mod 60))"

subsection \<open>The operations\<close>

definition draw_connection :: "visualizer \<Rightarrow> string \<Rightarrow> py_error + visualizer" where
  "draw_connection s addr =
     (case center_node s of
        None \<Rightarrow> Inr s
      | Some c \<Rightarrow>
          if addr = c then Inr s
          else (case positions s addr of
                  None \<Rightarrow> Inl KeyError
                | Some src \<Rightarrow>
                    (case positions s c of
                       None \<Rightarrow> Inl KeyError
                     | Some dst \<Rightarrow>
                         Inr (s\<lparr>edges := (edges s)(addr \<mapsto>
                                \<lparr>line_x1 = fst src + NODE_RADIUS / 2,
                                 line_y1 = snd src + NODE_RADIUS / 2,
                                 line_x2 = fst dst + NODE_RADIUS / 2,
                                 line_y2 = snd dst + NODE_RADIUS / 2\<rparr>)\<rparr>))))"

definition add_node :: "visualizer \<Rightarrow> string \<Rightarrow> py_error + visualizer" where
  "add_node s addr =
     (if addr \<in> set (map fst (nodes s)) then Inr s
      else
        (let (pos, s1) =
               (if center_node s = None then (CENTER_POS, s\<lparr>center_node := Some addr\<rparr>)
                else (let angle = real (length (nodes s)) * (360 / real MAX_NODES);
                          radius = 200;
                          x = fst CENTER_POS + radius * cos (radians angle);
                          y = snd CENTER_POS + radius * sin (radians angle)
                      in ((x, y), s)));
             color = (if center_node s1 = Some addr then Orange else Skyblue);
             node = \<lparr>brush = color, item_pos = pos, item_data = addr\<rparr>;
             label = \<lparr>label_text = drop (length addr - 4) addr,
                      label_pos = (fst pos + (NODE_RADIUS + 5), snd pos + (- 5))\<rparr>;
             s2 = s1\<lparr>nodes := nodes s1 @ [(addr, node, label)],
                     positions := (positions s1)(addr \<mapsto> pos)\<rparr>
         in if center_node s2 \<noteq> Some addr then draw_connection s2 addr else Inr s2))"

definition add_message :: "visualizer \<Rightarrow> string \<Rightarrow> string \<Rightarrow> string \<Rightarrow> visualizer" where
  "add_message s addr timestamp message =
     (let log = (case message_logs s addr of None \<Rightarrow> [] | Some l \<Rightarrow> l);
          s1 = s\<lparr>message_logs := (message_logs s)(addr \<mapsto> log @ [(timestamp, message)])\<rparr>
      in case dialogs s1 addr of
           None \<Rightarrow> s1
         | Some rows \<Rightarrow> s1\<lparr>dialogs := (dialogs s1)(addr \<mapsto> rows @ [(timestamp, message)])\<rparr>)"

text \<open>\<open>handle_line\<close>; \<open>now1\<close> and \<open>now2\<close> are the clock readings of lines 140 and 143.\<close>

definition handle_line :: "visualizer \<Rightarrow> string \<Rightarrow> datetime \<Rightarrow> datetime \<Rightarrow> py_error + visualizer" where
  "handle_line s line now1 now2 =
     (case handle_line_parse line of
        Inl e \<Rightarrow> Inl e
      | Inr None \<Rightarrow> Inr s
      | Inr (Some (node_addr, message)) \<Rightarrow>
          (let timestamp = strftime_HMS now1
           in case add_node s node_addr of
                Inl e \<Rightarrow> Inl e
              | Inr s1 \<Rightarrow>
                  (let s2 = add_message s1 node_addr timestamp message
                   in Inr (s2\<lparr>last_seen := (last_seen s2)(node_addr \<mapsto> now2)\<rparr>))))"

text \<open>One round of the loop of \<open>check_node_activity\<close>, on the entry of \<open>addr\<close>.\<close>

definition check_node :: "visualizer \<Rightarrow> datetime \<Rightarrow> string \<times> ellipse_item \<times> text_item
    \<Rightarrow> string \<times> ellipse_item \<times> text_item" where
  "check_node s now e =
     (case e of (addr, node, label) \<Rightarrow>
        if center_node s = Some addr then e
        else (case last_seen s addr of
                None \<Rightarrow> e
              | Some last_time \<Rightarrow>
                  (let delta = now - last_time
                   in if delta > INACTIVE_TIMEOUT * 1000000
                      then (addr, node\<lparr>brush := Red\<rparr>, label)
                      else (addr, node\<lparr>brush := Skyblue\<rparr>, label))))"

definition check_node_activity :: "visualizer \<Rightarrow> datetime \<Rightarrow> visualizer" where
  "check_node_activity s now = s\<lparr>nodes := map (check_node s now) (nodes s)\<rparr>"

text \<open>The handler returned by \<open>make_node_click_handler(addr)\<close>, run on a click.\<close>

definition handler :: "visualizer \<Rightarrow> string \<Rightarrow> visualizer" where
  "handler s addr =
     (case dialogs s addr of
        None \<Rightarrow> s\<lparr>dialogs := (dialogs s)(addr \<mapsto>
                    (case message_logs s addr of None \<Rightarrow> [] | Some l \<Rightarrow> l))\<rparr>
      | Some rows \<Rightarrow> s)"

text \<open>The fields as \<open>__init__\<close> sets them before it registers the leader, and the state it
  leaves.\<close>

definition empty_visualizer :: visualizer where
  "empty_visualizer =
     \<lparr>nodes = [], positions = Map.empty, edges = Map.empty, center_node = None,
      message_logs = Map.empty, dialogs = Map.empty, last_seen = Map.empty\<rparr>"

definition init :: "py_error + visualizer" where
  "init = add_node empty_visualizer leader_addr"

text \<open>The states the running program passes through: lines arrive, the status timer fires,
  nodes are clicked.\<close>

inductive reachable :: "visualizer \<Rightarrow> bool" where
  reach_init: "init = Inr s \<Longrightarrow> reachable s"
| reach_line: "reachable s \<Longrightarrow> handle_line s line now1 now2 = Inr s' \<Longrightarrow> reachable s'"
| reach_tick: "reachable s \<Longrightarrow> reachable (check_node_activity s now)"
| reach_click: "reachable s \<Longrightarrow> addr \<in> set (map fst (nodes s)) \<Longrightarrow> reachable (handler s addr)"

text \<open>Accessors: the message history of an address (\<open>message_logs.get(addr, [])\<close>, as the
  click handler reads it) and the item of a node.\<close>

definition getHistory :: "visualizer \<Rightarrow> string \<Rightarrow> (string \<times> string) list" where
  "getHistory s addr = (case message_logs s addr of None \<Rightarrow> [] | Some l \<Rightarrow> l)"

definition node_brush :: "visualizer \<Rightarrow> string \<Rightarrow> colour option" where
  "node_brush s addr = map_option (\<lambda>v. brush (fst v)) (map_of (nodes s) addr)"

subsection \<open>Layout, star edges and the invariants of the reachable states\<close>

definition layout :: "nat \<Rightarrow> point" where
  "layout k =
     (if k = 0 then CENTER_POS
      else (fst CENTER_POS + 200 * cos (radians (real k * (360 / real MAX_NODES))),
            snd CENTER_POS + 200 * sin (radians (real k * (360 / real MAX_NODES)))))"

definition star_line :: "point \<Rightarrow> point \<Rightarrow> line_item" where
  "star_line src dst =
     \<lparr>line_x1 = fst src + NODE_RADIUS / 2, line_y1 = snd src + NODE_RADIUS / 2,
      line_x2 = fst dst + NODE_RADIUS / 2, line_y2 = snd dst + NODE_RADIUS / 2\<rparr>"

definition new_item :: "string \<Rightarrow> colour \<Rightarrow> point \<Rightarrow> string \<times> ellipse_item \<times> text_item" where
  "new_item addr col pos =
     (addr, \<lparr>brush = col, item_pos = pos, item_data = addr\<rparr>,
      \<lparr>label_text = drop (length addr - 4) addr,
       label_pos = (fst pos + (NODE_RADIUS + 5), snd pos + (- 5))\<rparr>)"

definition keys :: "visualizer \<Rightarrow> string list" where
  "keys s = map fst (nodes s)"

definition wf_layout :: "visualizer \<Rightarrow> bool" where
  "wf_layout s \<longleftrightarrow>
     center_node s = Some leader_addr \<and> keys s \<noteq> [] \<and> hd (keys s) = leader_addr \<and>
     distinct (keys s) \<and> dom (positions s) = set (keys s) \<and>
     (\<forall>i < length (keys s). positions s (keys s ! i) = Some (layout i))"

definition wf_edges :: "visualizer \<Rightarrow> bool" where
  "wf_edges s \<longleftrightarrow>
     dom (edges s) = set (keys s) - {leader_addr} \<and>
     (\<forall>i < length (keys s). 0 < i \<longrightarrow>
        edges s (keys s ! i) = Some (star_line (layout i) CENTER_POS))"

definition wf_logs :: "visualizer \<Rightarrow> bool" where
  "wf_logs s \<longleftrightarrow>
     dom (dialogs s) \<subseteq> set (keys s) \<and> dom (message_logs s) \<subseteq> set (keys s)"

definition wf_seen :: "visualizer \<Rightarrow> bool" where
  "wf_seen s \<longleftrightarrow> (\<forall>a \<in> set (keys s). a \<noteq> leader_addr \<longrightarrow> last_seen s a \<noteq> None)"

definition wf_leader :: "visualizer \<Rightarrow> bool" where
  "wf_leader s \<longleftrightarrow> node_brush s leader_addr = Some Orange"

definition wf :: "visualizer \<Rightarrow> bool" where
  "wf s \<longleftrightarrow> wf_layout s \<and> wf_edges s \<and> wf_logs s \<and> wf_seen s \<and> wf_leader s"

subsection \<open>Runs and example states\<close>

text \<open>Any sequence of the three events, from an arbitrary state.\<close>

inductive run :: "visualizer \<Rightarrow> visualizer \<Rightarrow> bool" where
  run_refl: "run s s"
| run_line: "run s s1 \<Longrightarrow> handle_line s1 line now1 now2 = Inr s2 \<Longrightarrow> run s s2"
| run_tick: "run s s1 \<Longrightarrow> run s (check_node_activity s1 now)"
| run_click: "run s s1 \<Longrightarrow> run s (handler s1 addr)"

text \<open>One line \<open>from <addr> hi\<close> for each address of a list, in order.\<close>

fun ingest_all :: "visualizer \<Rightarrow> string list \<Rightarrow> visualizer" where
  "ingest_all s [] = s"
| "ingest_all s (a # as) = ingest_all (projr (handle_line s (''from '' @ a @ '' hi'') 0 0)) as"

text \<open>The state after the start, one line of node \<open>fd00::1\<close> at time 0 and a tick of the
  status timer one minute later.\<close>

definition example_state :: visualizer where
  "example_state =
     check_node_activity (projr (handle_line (projr init) ''from fd00::1 hello'' 0 0)) 60000000"

text \<open>The start followed by lines of eleven further addresses: \<open>MAX_NODES\<close> nodes.\<close>

definition full_state :: visualizer where
  "full_state =
     ingest_all (projr init)
       [''fd00::1'', ''fd00::2'', ''fd00::3'', ''fd00::4'', ''fd00::5'', ''fd00::6'',
        ''fd00::7'', ''fd00::8'', ''fd00::9'', ''fd00::a'', ''fd00::b'']"

text \<open>A node registered by a direct call of \<open>add_node\<close>: it has sent no message.\<close>

definition unseen_state :: visualizer where
  "unseen_state = projr (add_node (projr init) ''fd00::2'')"

text \<open>The message text as claim C9 words it: what follows the first whitespace
  character after the address token, the argument being the line after that token.\<close>

definition claimed_message_text :: "string \<Rightarrow> string" where
  "claimed_message_text after_addr = tl (dropWhile (\<lambda>c. \<not> py_isspace c) after_addr)"

section \<open>Properties\<close>

subsection \<open>Registration and the invariants\<close>

lemma add_node_known: "addr \<in> set (map fst (nodes s)) \<Longrightarrow> add_node s addr = Inr s"
  by (simp add: add_node_def)

lemma add_node_first:
  "center_node s = None \<Longrightarrow> addr \<notin> set (map fst (nodes s)) \<Longrightarrow>
   add_node s addr = Inr (s\<lparr>center_node := Some addr,
       nodes := nodes s @ [new_item addr Orange CENTER_POS],
       positions := (positions s)(addr \<mapsto> CENTER_POS)\<rparr>)"
  by (simp add: add_node_def new_item_def Let_def)

lemma add_node_new:
  assumes "center_node s = Some c" "addr \<notin> set (map fst (nodes s))" "addr \<noteq> c"
    "positions s c = Some pc" "nodes s \<noteq> []"
  shows "add_node s addr = Inr (s\<lparr>nodes := nodes s @ [new_item addr Skyblue (layout (length (nodes s)))],
       positions := (positions s)(addr \<mapsto> layout (length (nodes s))),
       edges := (edges s)(addr \<mapsto> star_line (layout (length (nodes s))) pc)\<rparr>)"
  using assms
  by (simp add: add_node_def new_item_def Let_def draw_connection_def layout_def star_line_def)

lemma layout_0: "layout 0 = CENTER_POS"
  by (simp add: layout_def)

lemma wf_layout_leader_in: "wf_layout s \<Longrightarrow> leader_addr \<in> set (keys s)"
  unfolding wf_layout_def by (metis hd_in_set)

lemma wf_layout_leader_pos: "wf_layout s \<Longrightarrow> positions s leader_addr = Some CENTER_POS"
proof -
  assume w: "wf_layout s"
  then have "0 < length (keys s)" "keys s ! 0 = leader_addr"
    by (auto simp add: wf_layout_def hd_conv_nth)
  with w show ?thesis unfolding wf_layout_def by (metis layout_0)
qed

lemma add_node_wf_new:
  assumes "wf_layout s" "addr \<notin> set (keys s)"
  shows "add_node s addr = Inr (s\<lparr>nodes := nodes s @ [new_item addr Skyblue (layout (length (nodes s)))],
       positions := (positions s)(addr \<mapsto> layout (length (nodes s))),
       edges := (edges s)(addr \<mapsto> star_line (layout (length (nodes s))) CENTER_POS)\<rparr>)"
proof (rule add_node_new)
  show "center_node s = Some leader_addr" using assms(1) by (simp add: wf_layout_def)
  show "addr \<notin> set (map fst (nodes s))" using assms(2) by (simp add: keys_def)
  show "addr \<noteq> leader_addr" using assms wf_layout_leader_in by blast
  show "positions s leader_addr = Some CENTER_POS" using assms(1) by (rule wf_layout_leader_pos)
  show "nodes s \<noteq> []" using assms(1) by (auto simp add: wf_layout_def keys_def)
qed

lemma keys_append_new [simp]: "keys (s\<lparr>nodes := nodes s @ [new_item a c p]\<rparr>) = keys s @ [a]"
  by (simp add: keys_def new_item_def)

lemma keys_upd [simp]:
  "keys (s\<lparr>positions := ps\<rparr>) = keys s" "keys (s\<lparr>edges := es\<rparr>) = keys s"
  "keys (s\<lparr>message_logs := ms\<rparr>) = keys s" "keys (s\<lparr>dialogs := ds\<rparr>) = keys s"
  "keys (s\<lparr>last_seen := ls\<rparr>) = keys s" "keys (s\<lparr>center_node := cn\<rparr>) = keys s"
  by (simp_all add: keys_def)

lemma wf_layout_add_node:
  assumes "wf_layout s" "add_node s addr = Inr s'"
  shows "wf_layout s'"
proof (cases "addr \<in> set (keys s)")
  case True
  then show ?thesis using assms by (simp add: add_node_known keys_def)
next
  case False
  have len: "length (nodes s) = length (keys s)" by (simp add: keys_def)
  from add_node_wf_new [OF assms(1) False] assms(2)
  have s': "s' = s\<lparr>nodes := nodes s @ [new_item addr Skyblue (layout (length (nodes s)))],
       positions := (positions s)(addr \<mapsto> layout (length (nodes s))),
       edges := (edges s)(addr \<mapsto> star_line (layout (length (nodes s))) CENTER_POS)\<rparr>" by simp
  show ?thesis
    using assms(1) False unfolding s' wf_layout_def
    by (auto simp add: nth_append len less_Suc_eq)
qed

lemma wf_edges_add_node:
  assumes "wf_layout s" "wf_edges s" "add_node s addr = Inr s'"
  shows "wf_edges s'"
proof (cases "addr \<in> set (keys s)")
  case True
  then show ?thesis using assms by (simp add: add_node_known keys_def)
next
  case False
  have len: "length (nodes s) = length (keys s)" by (simp add: keys_def)
  have ne: "addr \<noteq> leader_addr" using assms(1) False wf_layout_leader_in by blast
  have pos: "0 < length (keys s)" using assms(1) by (simp add: wf_layout_def)
  from add_node_wf_new [OF assms(1) False] assms(3)
  have s': "s' = s\<lparr>nodes := nodes s @ [new_item addr Skyblue (layout (length (nodes s)))],
       positions := (positions s)(addr \<mapsto> layout (length (nodes s))),
       edges := (edges s)(addr \<mapsto> star_line (layout (length (nodes s))) CENTER_POS)\<rparr>" by simp
  show ?thesis
    using assms(2) False ne pos unfolding s' wf_edges_def
    by (auto simp add: nth_append len less_Suc_eq)
qed

lemma add_node_cases:
  assumes "wf_layout s" "add_node s addr = Inr s'"
  shows "(addr \<in> set (keys s) \<and> s' = s) \<or>
         (addr \<notin> set (keys s) \<and>
          s' = s\<lparr>nodes := nodes s @ [new_item addr Skyblue (layout (length (nodes s)))],
                 positions := (positions s)(addr \<mapsto> layout (length (nodes s))),
                 edges := (edges s)(addr \<mapsto> star_line (layout (length (nodes s))) CENTER_POS)\<rparr>)"
proof (cases "addr \<in> set (keys s)")
  case True
  then show ?thesis using assms(2) by (simp add: add_node_known keys_def)
next
  case False
  then show ?thesis using add_node_wf_new [OF assms(1) False] assms(2) by simp
qed

lemma add_node_total: "wf_layout s \<Longrightarrow> \<exists>s'. add_node s addr = Inr s'"
  by (cases "addr \<in> set (keys s)") (simp_all add: add_node_known keys_def add_node_wf_new)

lemma add_node_keys:
  assumes "wf_layout s" "add_node s addr = Inr s'"
  shows "addr \<in> set (keys s')" "set (keys s) \<subseteq> set (keys s')"
  using add_node_cases [OF assms] by auto

lemma add_node_other_fields:
  assumes "wf_layout s" "add_node s addr = Inr s'"
  shows "message_logs s' = message_logs s" "dialogs s' = dialogs s" "last_seen s' = last_seen s"
    "center_node s' = center_node s"
  using add_node_cases [OF assms] by auto

lemma map_of_append_known: "k \<in> set (map fst xs) \<Longrightarrow> map_of (xs @ ys) k = map_of xs k"
  by (induction xs) auto

lemma add_node_keys_eq:
  assumes "wf_layout s" "add_node s addr = Inr s'"
  shows "keys s' = (if addr \<in> set (keys s) then keys s else keys s @ [addr])"
  using add_node_cases [OF assms] by auto

lemma add_node_nodes_eq:
  assumes "wf_layout s" "add_node s addr = Inr s'"
  shows "\<exists>ys. nodes s' = nodes s @ ys"
  using add_node_cases [OF assms] by auto

lemma node_brush_add_node:
  assumes "wf_layout s" "add_node s addr = Inr s'" "a \<in> set (keys s)"
  shows "node_brush s' a = node_brush s a"
proof -
  obtain ys where "nodes s' = nodes s @ ys"
    using add_node_nodes_eq [OF assms(1,2)] by blast
  moreover have "map_of (nodes s @ ys) a = map_of (nodes s) a"
    using assms(3) by (simp only: keys_def map_of_append_known)
  ultimately show ?thesis by (simp only: node_brush_def)
qed

lemma wf_logs_add_node: "wf_layout s \<Longrightarrow> wf_logs s \<Longrightarrow> add_node s addr = Inr s' \<Longrightarrow> wf_logs s'"
  using add_node_keys(2) [of s addr s'] add_node_other_fields [of s addr s']
  by (auto simp add: wf_logs_def)

lemma wf_leader_add_node: "wf_layout s \<Longrightarrow> wf_leader s \<Longrightarrow> add_node s addr = Inr s' \<Longrightarrow> wf_leader s'"
  using node_brush_add_node [of s addr s' leader_addr] wf_layout_leader_in [of s]
  by (simp add: wf_leader_def)

lemma add_message_fields [simp]:
  "nodes (add_message s a ts m) = nodes s" "positions (add_message s a ts m) = positions s"
  "edges (add_message s a ts m) = edges s" "center_node (add_message s a ts m) = center_node s"
  "last_seen (add_message s a ts m) = last_seen s"
  by (simp_all add: add_message_def Let_def split: option.splits)

lemma add_message_logs:
  "message_logs (add_message s a ts m) = (message_logs s)(a \<mapsto> getHistory s a @ [(ts, m)])"
  by (simp add: add_message_def getHistory_def Let_def split: option.splits)

lemma add_message_dialogs:
  "dialogs (add_message s a ts m) =
     (case dialogs s a of None \<Rightarrow> dialogs s | Some rows \<Rightarrow> (dialogs s)(a \<mapsto> rows @ [(ts, m)]))"
  by (simp add: add_message_def Let_def split: option.splits)

lemma keys_add_message [simp]: "keys (add_message s a ts m) = keys s"
  by (simp add: keys_def)

lemma node_brush_add_message [simp]: "node_brush (add_message s a ts m) b = node_brush s b"
  by (simp add: node_brush_def)

lemma handle_line_cases:
  assumes "handle_line s line now1 now2 = Inr s'"
  shows "(handle_line_parse line = Inr None \<and> s' = s) \<or>
         (\<exists>a m s1. handle_line_parse line = Inr (Some (a, m)) \<and> add_node s a = Inr s1 \<and>
            s' = (add_message s1 a (strftime_HMS now1) m)\<lparr>last_seen := (last_seen s1)(a \<mapsto> now2)\<rparr>)"
  using assms
  by (auto simp add: handle_line_def Let_def split: sum.splits option.splits prod.splits)

lemma wf_layout_frame:
  "wf_layout s \<Longrightarrow> nodes s' = nodes s \<Longrightarrow> positions s' = positions s \<Longrightarrow>
   center_node s' = center_node s \<Longrightarrow> wf_layout s'"
  by (simp add: wf_layout_def keys_def)

lemma wf_edges_frame:
  "wf_edges s \<Longrightarrow> nodes s' = nodes s \<Longrightarrow> edges s' = edges s \<Longrightarrow> wf_edges s'"
  by (simp add: wf_edges_def keys_def)

lemma wf_leader_frame: "wf_leader s \<Longrightarrow> nodes s' = nodes s \<Longrightarrow> wf_leader s'"
  by (simp add: wf_leader_def node_brush_def)

lemma wf_logs_frame:
  "wf_logs s \<Longrightarrow> nodes s' = nodes s \<Longrightarrow> dialogs s' = dialogs s \<Longrightarrow>
   message_logs s' = message_logs s \<Longrightarrow> wf_logs s'"
  by (simp add: wf_logs_def keys_def)

lemma wf_seen_frame:
  "wf_seen s \<Longrightarrow> keys s' = keys s \<Longrightarrow> last_seen s' = last_seen s \<Longrightarrow> wf_seen s'"
  by (simp add: wf_seen_def)

lemma dom_dialogs_add_message [simp]:
  "dom (dialogs (add_message s a ts m)) = dom (dialogs s)"
  by (auto simp add: add_message_dialogs split: option.splits)

lemma dom_logs_add_message [simp]:
  "dom (message_logs (add_message s a ts m)) = insert a (dom (message_logs s))"
  by (simp add: add_message_logs)

lemma wf_logs_ingest:
  assumes "wf_logs s1" "a \<in> set (keys s1)"
  shows "wf_logs ((add_message s1 a ts m)\<lparr>last_seen := ls\<rparr>)"
  using assms by (simp add: wf_logs_def)

lemma wf_seen_ingest:
  assumes "wf_seen s" "wf_layout s" "add_node s a = Inr s1"
  shows "wf_seen ((add_message s1 a ts m)\<lparr>last_seen := (last_seen s1)(a \<mapsto> now2)\<rparr>)"
proof -
  have k: "set (keys s1) \<subseteq> insert a (set (keys s))"
    using add_node_keys_eq [OF assms(2,3)] by (auto split: if_splits)
  have l: "last_seen s1 = last_seen s" using assms(2,3) by (rule add_node_other_fields)
  show ?thesis using assms(1) k unfolding wf_seen_def l by auto
qed

lemma wf_handle_line:
  assumes "wf s" "handle_line s line now1 now2 = Inr s'"
  shows "wf s'"
  using handle_line_cases [OF assms(2)]
proof (elim disjE conjE exE)
  assume "s' = s" then show ?thesis using assms(1) by simp
next
  fix a m s1
  assume an: "add_node s a = Inr s1"
    and s': "s' = (add_message s1 a (strftime_HMS now1) m)\<lparr>last_seen := (last_seen s1)(a \<mapsto> now2)\<rparr>"
  from assms(1) have w: "wf_layout s" "wf_edges s" "wf_logs s" "wf_seen s" "wf_leader s"
    by (simp_all add: wf_def)
  have l1: "wf_layout s1" using w(1) an by (rule wf_layout_add_node)
  have e1: "wf_edges s1" using w(1,2) an by (rule wf_edges_add_node)
  have g1: "wf_logs s1" using w(1,3) an by (rule wf_logs_add_node)
  have d1: "wf_leader s1" using w(1,5) an by (rule wf_leader_add_node)
  have k1: "a \<in> set (keys s1)" using w(1) an by (rule add_node_keys)
  have "wf_layout s'" using l1 unfolding s' by (rule wf_layout_frame) simp_all
  moreover have "wf_edges s'" using e1 unfolding s' by (rule wf_edges_frame) simp_all
  moreover have "wf_leader s'" using d1 unfolding s' by (rule wf_leader_frame) simp_all
  moreover have "wf_logs s'" unfolding s' using g1 k1 by (rule wf_logs_ingest)
  moreover have "wf_seen s'" unfolding s' using w(4,1) an by (rule wf_seen_ingest)
  ultimately show ?thesis by (simp add: wf_def)
qed

lemma fst_check_node [simp]: "fst (check_node s now e) = fst e"
  by (cases e) (simp add: check_node_def Let_def split: option.splits)

lemma keys_check [simp]: "keys (check_node_activity s now) = keys s"
  by (simp add: keys_def check_node_activity_def)

lemma map_of_check:
  "map_of (map (check_node s now) xs) a =
     map_option (\<lambda>v. snd (check_node s now (a, v))) (map_of xs a)"
proof (induction xs)
  case Nil
  then show ?case by simp
next
  case (Cons x xs)
  obtain k v where x: "x = (k, v)" by (cases x)
  obtain k' v' where c: "check_node s now (k, v) = (k', v')" by (cases "check_node s now (k, v)")
  have "k' = k" using fst_check_node [of s now "(k, v)"] c by simp
  then show ?case using Cons x c by simp
qed

lemma check_fields [simp]:
  "positions (check_node_activity s now) = positions s"
  "edges (check_node_activity s now) = edges s"
  "center_node (check_node_activity s now) = center_node s"
  "message_logs (check_node_activity s now) = message_logs s"
  "dialogs (check_node_activity s now) = dialogs s"
  "last_seen (check_node_activity s now) = last_seen s"
  by (simp_all add: check_node_activity_def)

lemma node_brush_check:
  "node_brush (check_node_activity s now) a =
     map_option (\<lambda>v. brush (fst (snd (check_node s now (a, v))))) (map_of (nodes s) a)"
  by (simp add: node_brush_def check_node_activity_def map_of_check option.map_comp comp_def
      split_beta)

lemma check_node_center: "center_node s = Some a \<Longrightarrow> check_node s now (a, v) = (a, v)"
  by (cases v) (simp add: check_node_def)

lemma node_brush_check_center:
  "center_node s = Some a \<Longrightarrow> node_brush (check_node_activity s now) a = node_brush s a"
proof -
  assume c: "center_node s = Some a"
  have "node_brush (check_node_activity s now) a =
      map_option (\<lambda>v. brush (fst (snd (a, v)))) (map_of (nodes s) a)"
    by (simp only: node_brush_check check_node_center [OF c])
  also have "\<dots> = node_brush s a" by (simp add: node_brush_def split_beta)
  finally show ?thesis .
qed

lemma wf_check:
  assumes "wf s"
  shows "wf (check_node_activity s now)"
proof -
  from assms have w: "wf_layout s" "wf_edges s" "wf_logs s" "wf_seen s" "wf_leader s"
    by (simp_all add: wf_def)
  have c: "center_node s = Some leader_addr" using w(1) by (simp add: wf_layout_def)
  have "wf_layout (check_node_activity s now)" using w(1) by (simp add: wf_layout_def)
  moreover have "wf_edges (check_node_activity s now)" using w(2) by (simp add: wf_edges_def)
  moreover have "wf_logs (check_node_activity s now)" using w(3) by (simp add: wf_logs_def)
  moreover have "wf_seen (check_node_activity s now)" using w(4) by (simp add: wf_seen_def)
  moreover have "wf_leader (check_node_activity s now)"
    using w(5) by (simp add: wf_leader_def node_brush_check_center [OF c])
  ultimately show ?thesis by (simp add: wf_def)
qed

lemma handler_fields [simp]:
  "nodes (handler s a) = nodes s" "positions (handler s a) = positions s"
  "edges (handler s a) = edges s" "center_node (handler s a) = center_node s"
  "message_logs (handler s a) = message_logs s" "last_seen (handler s a) = last_seen s"
  by (simp_all add: handler_def split: option.splits)

lemma dom_dialogs_handler [simp]: "dom (dialogs (handler s a)) = insert a (dom (dialogs s))"
  by (auto simp add: handler_def split: option.splits)

lemma keys_handler [simp]: "keys (handler s a) = keys s"
  by (simp add: keys_def)

lemma wf_handler:
  assumes "wf s" "a \<in> set (keys s)"
  shows "wf (handler s a)"
proof -
  from assms have w: "wf_layout s" "wf_edges s" "wf_logs s" "wf_seen s" "wf_leader s"
    by (simp_all add: wf_def)
  have "wf_layout (handler s a)" using w(1) by (rule wf_layout_frame) simp_all
  moreover have "wf_edges (handler s a)" using w(2) by (rule wf_edges_frame) simp_all
  moreover have "wf_leader (handler s a)" using w(5) by (rule wf_leader_frame) simp_all
  moreover have "wf_seen (handler s a)" using w(4) by (rule wf_seen_frame) simp_all
  moreover have "wf_logs (handler s a)" using w(3) assms(2) by (simp add: wf_logs_def)
  ultimately show ?thesis by (simp add: wf_def)
qed

lemma init_eq:
  "init = Inr (empty_visualizer\<lparr>center_node := Some leader_addr,
       nodes := [new_item leader_addr Orange CENTER_POS],
       positions := [leader_addr \<mapsto> CENTER_POS]\<rparr>)"
  unfolding init_def
  by (subst add_node_first) (simp_all add: empty_visualizer_def)

lemma wf_init:
  assumes "init = Inr s"
  shows "wf s"
proof -
  have s: "s = empty_visualizer\<lparr>center_node := Some leader_addr,
       nodes := [new_item leader_addr Orange CENTER_POS],
       positions := [leader_addr \<mapsto> CENTER_POS]\<rparr>"
    using assms by (simp add: init_eq)
  have k: "keys s = [leader_addr]" by (simp add: s keys_def new_item_def)
  have "wf_layout s" by (simp add: wf_layout_def k) (simp add: s layout_0)
  moreover have "wf_edges s" by (simp add: wf_edges_def k) (simp add: s empty_visualizer_def)
  moreover have "wf_logs s" by (simp add: wf_logs_def k) (simp add: s empty_visualizer_def)
  moreover have "wf_seen s" by (simp add: wf_seen_def k)
  moreover have "wf_leader s" by (simp add: wf_leader_def node_brush_def s new_item_def)
  ultimately show ?thesis by (simp add: wf_def)
qed

lemma reachable_wf: "reachable s \<Longrightarrow> wf s"
proof (induction rule: reachable.induct)
  case (reach_init s)
  then show ?case by (rule wf_init)
next
  case (reach_line s line now1 now2 s')
  then show ?case using wf_handle_line by blast
next
  case (reach_tick s now)
  then show ?case by (simp add: wf_check)
next
  case (reach_click s addr)
  then show ?case by (simp add: wf_handler keys_def)
qed

subsection \<open>The regular expression and the override\<close>

lemma re_class_not_space: "re_class c \<Longrightarrow> c \<noteq> CHR '' ''"
  by (auto simp add: re_class_def)

lemma re_class_dot: "re_class c \<Longrightarrow> re_dot c"
  by (auto simp add: re_class_def re_dot_def)

lemma re_tail_dots:
  assumes "m \<noteq> []" "\<forall>c\<in>set m. re_dot c" "nl = [] \<or> nl = [CHR 0x0A]"
  shows "re_tail (m @ nl) = Some m"
proof -
  have n: "\<not> re_dot (CHR 0x0A)" by (simp add: re_dot_def)
  have "takeWhile re_dot (m @ nl) = m" using assms(2,3) n by (auto simp add: takeWhile_append2)
  moreover have "dropWhile re_dot (m @ nl) = nl"
    using assms(2,3) n by (auto simp add: dropWhile_append2)
  ultimately show ?thesis using assms(1,3) by (auto simp add: re_tail_def Let_def)
qed

lemma re_tail_SomeD:
  assumes "re_tail r = Some m"
  shows "\<exists>nl. r = m @ nl \<and> m \<noteq> [] \<and> (\<forall>c\<in>set m. re_dot c) \<and> (nl = [] \<or> nl = [CHR 0x0A])"
proof -
  have m: "m = takeWhile re_dot r" and ne: "m \<noteq> []"
    and z: "dropWhile re_dot r = [] \<or> dropWhile re_dot r = [CHR 0x0A]"
    using assms by (auto simp add: re_tail_def Let_def split: if_splits)
  have "r = m @ dropWhile re_dot r" by (simp add: m)
  moreover have "\<forall>c\<in>set m. re_dot c" unfolding m by (auto dest: set_takeWhileD)
  ultimately show ?thesis using ne z by blast
qed

lemma re_gap_SomeD:
  "re_gap r = Some g \<Longrightarrow>
   \<exists>gap nl. r = gap @ CHR '' '' # g @ nl \<and> (\<forall>c\<in>set gap. re_dot c \<and> c \<noteq> CHR '' '') \<and>
     g \<noteq> [] \<and> (\<forall>c\<in>set g. re_dot c) \<and> (nl = [] \<or> nl = [CHR 0x0A])"
proof (induction r)
  case Nil
  then show ?case by simp
next
  case (Cons c r)
  show ?case
  proof (cases "c = CHR '' '' \<and> re_tail r \<noteq> None")
    case True
    then have "re_tail r = Some g" using Cons.prems by auto
    from re_tail_SomeD [OF this] obtain nl where
      "r = g @ nl" "g \<noteq> []" "\<forall>c\<in>set g. re_dot c" "nl = [] \<or> nl = [CHR 0x0A]" by blast
    then have "c # r = [] @ CHR '' '' # g @ nl \<and> (\<forall>c\<in>set []. re_dot c \<and> c \<noteq> CHR '' '') \<and>
        g \<noteq> [] \<and> (\<forall>c\<in>set g. re_dot c) \<and> (nl = [] \<or> nl = [CHR 0x0A])"
      using True by simp
    then show ?thesis by blast
  next
    case False
    then have rec: "re_dot c" "re_gap r = Some g"
      using Cons.prems by (auto split: if_splits option.splits)
    from Cons.IH [OF rec(2)] obtain gap nl where
      d: "r = gap @ CHR '' '' # g @ nl" "\<forall>c\<in>set gap. re_dot c \<and> c \<noteq> CHR '' ''"
        "g \<noteq> []" "\<forall>c\<in>set g. re_dot c" "nl = [] \<or> nl = [CHR 0x0A]" by blast
    have sp: "re_dot (CHR '' '')" by (simp add: re_dot_def)
    have "re_tail ((gap @ CHR '' '' # g) @ nl) = Some (gap @ CHR '' '' # g)"
      using d sp by (intro re_tail_dots) auto
    then have "re_tail r \<noteq> None" using d(1) by simp
    then have "c \<noteq> CHR '' ''" using False by simp
    then have "c # r = (c # gap) @ CHR '' '' # g @ nl \<and>
        (\<forall>x\<in>set (c # gap). re_dot x \<and> x \<noteq> CHR '' '') \<and>
        g \<noteq> [] \<and> (\<forall>c\<in>set g. re_dot c) \<and> (nl = [] \<or> nl = [CHR 0x0A])"
      using d rec(1) by simp
    then show ?thesis by blast
  qed
qed

lemma re_gap_skip: "\<forall>c\<in>set xs. re_class c \<Longrightarrow> re_gap (xs @ r) = re_gap r"
  by (induction xs) (auto simp add: re_class_not_space re_class_dot)

lemma re_gap_drop_class:
  assumes "k \<le> length (takeWhile re_class r)"
  shows "re_gap (drop k r) = re_gap (dropWhile re_class r)"
proof -
  have "drop k r = drop k (takeWhile re_class r @ dropWhile re_class r)" by simp
  also have "\<dots> = drop k (takeWhile re_class r) @ dropWhile re_class r"
    using assms by (simp only: drop_append) simp
  finally have "re_gap (drop k r) = re_gap (drop k (takeWhile re_class r) @ dropWhile re_class r)"
    by simp
  also have "\<dots> = re_gap (dropWhile re_class r)"
    by (rule re_gap_skip) (auto dest: in_set_dropD set_takeWhileD)
  finally show ?thesis .
qed

lemma re_addr_eq:
  "n \<le> length (takeWhile re_class r) \<Longrightarrow>
   re_addr n r = (if n = 0 then None
                  else map_option (\<lambda>g. (take n r, g)) (re_gap (dropWhile re_class r)))"
proof (induction n)
  case 0
  then show ?case by simp
next
  case (Suc n)
  have g: "re_gap (drop (Suc n) r) = re_gap (dropWhile re_class r)"
    using Suc.prems by (rule re_gap_drop_class)
  show ?case using Suc by (simp add: g split: option.splits)
qed

lemma take_length_takeWhile: "take (length (takeWhile P xs)) xs = takeWhile P xs"
  by (induction xs) auto

lemma re_match_here_eq:
  "re_match_here r =
     (if startswith r ''from '' \<and> takeWhile re_class (drop 5 r) \<noteq> []
      then map_option (\<lambda>g. (takeWhile re_class (drop 5 r), g))
             (re_gap (dropWhile re_class (drop 5 r)))
      else None)"
  by (simp add: re_match_here_def re_addr_eq take_length_takeWhile)

lemma re_search_SomeD:
  "re_search line = Some p \<Longrightarrow> \<exists>pre suf. line = pre @ suf \<and> re_match_here suf = Some p"
proof (induction line)
  case Nil
  then show ?case by simp
next
  case (Cons c r)
  show ?case
  proof (cases "re_match_here (c # r)")
    case None
    then have "re_search r = Some p" using Cons.prems by simp
    from Cons.IH [OF this] obtain pre suf where "r = pre @ suf" "re_match_here suf = Some p"
      by blast
    then have "c # r = (c # pre) @ suf \<and> re_match_here suf = Some p" by simp
    then show ?thesis by blast
  next
    case (Some q)
    then have "c # r = [] @ (c # r) \<and> re_match_here (c # r) = Some p" using Cons.prems by simp
    then show ?thesis by blast
  qed
qed

lemma startswith_D: "startswith r p \<Longrightarrow> r = p @ drop (length p) r"
  by (metis append_take_drop_id startswith_def)


lemma re_search_decomp:
  assumes "re_search line = Some (a, g)"
  shows "\<exists>pre gap nl. line = pre @ ''from '' @ a @ gap @ '' '' @ g @ nl \<and>
      a \<noteq> [] \<and> (\<forall>c\<in>set a. re_class c) \<and> (gap \<noteq> [] \<longrightarrow> \<not> re_class (hd gap)) \<and>
      CHR '' '' \<notin> set gap \<and> g \<noteq> [] \<and> CHR 0x0A \<notin> set g \<and> (nl = [] \<or> nl = [CHR 0x0A])"
proof -
  from re_search_SomeD [OF assms] obtain pre suf where
    l: "line = pre @ suf" and m: "re_match_here suf = Some (a, g)" by blast
  let ?r = "drop 5 suf"
  from m have sw: "startswith suf ''from ''" and ne: "takeWhile re_class ?r \<noteq> []"
    and a: "a = takeWhile re_class ?r" and gp: "re_gap (dropWhile re_class ?r) = Some g"
    by (auto simp add: re_match_here_eq split: if_splits)
  from re_gap_SomeD [OF gp] obtain gap nl where
    d: "dropWhile re_class ?r = gap @ CHR '' '' # g @ nl"
      "\<forall>c\<in>set gap. re_dot c \<and> c \<noteq> CHR '' ''" "g \<noteq> []" "\<forall>c\<in>set g. re_dot c"
      "nl = [] \<or> nl = [CHR 0x0A]" by blast
  have l5: "length ''from '' = 5" by simp
  have "suf = ''from '' @ ?r" using startswith_D [OF sw] unfolding l5 .
  also have "?r = a @ dropWhile re_class ?r" by (simp add: a)
  finally have suf: "suf = ''from '' @ a @ gap @ '' '' @ g @ nl" by (simp only: d(1) append.simps)
  have ane: "a \<noteq> []" using ne unfolding a .
  have cl: "\<forall>c\<in>set a. re_class c" unfolding a by (auto dest: set_takeWhileD)
  have hd: "gap \<noteq> [] \<longrightarrow> \<not> re_class (hd gap)"
  proof
    assume "gap \<noteq> []"
    then have "hd gap = hd (dropWhile re_class ?r)" by (simp add: d(1))
    moreover have "dropWhile re_class ?r \<noteq> []" by (simp add: d(1))
    ultimately show "\<not> re_class (hd gap)" using hd_dropWhile by metis
  qed
  have "CHR '' '' \<notin> set gap" using d(2) by blast
  moreover have "CHR 0x0A \<notin> set g" using d(4) by (auto simp add: re_dot_def)
  ultimately have "line = pre @ ''from '' @ a @ gap @ '' '' @ g @ nl \<and>
      a \<noteq> [] \<and> (\<forall>c\<in>set a. re_class c) \<and> (gap \<noteq> [] \<longrightarrow> \<not> re_class (hd gap)) \<and>
      CHR '' '' \<notin> set gap \<and> g \<noteq> [] \<and> CHR 0x0A \<notin> set g \<and> (nl = [] \<or> nl = [CHR 0x0A])"
    using l suf ane cl hd d(3,5) by blast
  then show ?thesis by blast
qed

lemma re_match_here_no_f: "CHR ''f'' \<noteq> c \<Longrightarrow> re_match_here (c # r) = None"
  by (auto simp add: re_match_here_def startswith_def)

lemma re_search_skip: "CHR ''f'' \<notin> set pre \<Longrightarrow> re_search (pre @ r) = re_search r"
  by (induction pre) (simp_all add: re_match_here_no_f)

lemma re_search_Some_here: "re_match_here r = Some p \<Longrightarrow> re_search r = Some p"
  by (cases r) simp_all

lemma re_search_direct:
  assumes "CHR ''f'' \<notin> set pre" "a \<noteq> []" "\<forall>c\<in>set a. re_class c"
    "rest \<noteq> []" "CHR 0x0A \<notin> set rest"
  shows "re_search (pre @ ''from '' @ a @ '' '' @ rest) = Some (a, rest)"
proof -
  let ?r = "a @ '' '' @ rest"
  have ns: "\<not> re_class (CHR '' '')" by (simp add: re_class_def)
  have t: "takeWhile re_class ?r = a" using assms(3) ns by (simp add: takeWhile_append2)
  have dw: "dropWhile re_class ?r = CHR '' '' # rest"
    using assms(3) ns by (simp add: dropWhile_append2)
  have "re_tail (rest @ []) = Some rest"
    using assms(4,5) by (intro re_tail_dots) (auto simp add: re_dot_def)
  then have g: "re_gap (CHR '' '' # rest) = Some rest" by simp
  have d5: "drop 5 (''from '' @ ?r) = ?r" by simp
  have "startswith (''from '' @ ?r) ''from ''" by (simp add: startswith_def)
  then have "re_match_here (''from '' @ ?r) = Some (a, rest)"
    unfolding re_match_here_eq d5 t dw g using assms(2) by simp
  then have "re_search (''from '' @ ?r) = Some (a, rest)" by (rule re_search_Some_here)
  then show ?thesis by (simp only: re_search_skip [OF assms(1)])
qed

lemma py_split_sep_unfold:
  "py_split_sep sep s =
     takeWhile (\<lambda>c. c \<noteq> sep) s #
       (if sep \<in> set s then py_split_sep sep (tl (dropWhile (\<lambda>c. c \<noteq> sep) s)) else [])"
  by (induction s) (auto split: list.splits)

lemma py_split_sep_field:
  assumes "sep \<in> set s"
  shows "py_index (py_split_sep sep s) 1 =
           Inr (takeWhile (\<lambda>c. c \<noteq> sep) (tl (dropWhile (\<lambda>c. c \<noteq> sep) s)))"
proof -
  let ?t = "tl (dropWhile (\<lambda>c. c \<noteq> sep) s)"
  have "py_split_sep sep s = takeWhile (\<lambda>c. c \<noteq> sep) s # py_split_sep sep ?t"
    using assms by (subst py_split_sep_unfold) simp
  also have "py_split_sep sep ?t = takeWhile (\<lambda>c. c \<noteq> sep) ?t #
       (if sep \<in> set ?t then py_split_sep sep (tl (dropWhile (\<lambda>c. c \<noteq> sep) ?t)) else [])"
    by (rule py_split_sep_unfold)
  finally show ?thesis by (simp add: py_index_def)
qed

lemma of_char_lower:
  "(of_char (py_lower_char c) :: nat) =
     (let n = (of_char c :: nat)
      in if (65 \<le> n \<and> n \<le> 90) \<or> (192 \<le> n \<and> n \<le> 222 \<and> n \<noteq> 215) then n + 32 else n)"
  by (auto simp add: py_lower_char_def Let_def)

lemma lower_colon: "py_lower_char c = CHR '':'' \<Longrightarrow> c = CHR '':''"
proof -
  assume a: "py_lower_char c = CHR '':''"
  have "(of_char (py_lower_char c) :: nat) = 58" by (simp add: a)
  then have "(of_char c :: nat) = 58" by (auto simp add: of_char_lower Let_def split: if_splits)
  then have "(of_char c :: nat) = of_char (CHR '':'')" by simp
  then show ?thesis by (rule of_char_eqI)
qed

lemma lower_nospace: "py_lower_char c \<in> set ''simulate:'' \<Longrightarrow> \<not> py_isspace c"
proof -
  assume a: "py_lower_char c \<in> set ''simulate:''"
  have "(of_char (py_lower_char c) :: nat) \<in> of_char ` set ''simulate:''" using a by blast
  then show ?thesis by (auto simp add: of_char_lower py_isspace_def Let_def split: if_splits)
qed

lemma simulate_prefix:
  assumes "startswith (py_lower m) ''simulate:''"
  shows "\<exists>p q. m = p @ CHR '':'' # q \<and> (\<forall>c\<in>set p. \<not> py_isspace c)"
proof -
  define x where "x = take (length ''simulate:'') m"
  have mx: "m = x @ drop (length ''simulate:'') m" by (simp only: x_def append_take_drop_id)
  have "map py_lower_char x = ''simulate:''"
    using assms unfolding startswith_def py_lower_def take_map x_def .
  then obtain c1 c2 c3 c4 c5 c6 c7 c8 c9 where
    x: "x = [c1, c2, c3, c4, c5, c6, c7, c8, c9]"
    and l: "py_lower_char c1 = CHR ''s''" "py_lower_char c2 = CHR ''i''"
      "py_lower_char c3 = CHR ''m''" "py_lower_char c4 = CHR ''u''"
      "py_lower_char c5 = CHR ''l''" "py_lower_char c6 = CHR ''a''"
      "py_lower_char c7 = CHR ''t''" "py_lower_char c8 = CHR ''e''"
      "py_lower_char c9 = CHR '':''"
    by (auto simp add: map_eq_Cons_conv)
  have ns: "\<forall>c\<in>set [c1, c2, c3, c4, c5, c6, c7, c8]. \<not> py_isspace c"
    using l by (auto intro!: lower_nospace)
  have c9: "c9 = CHR '':''" using l(9) by (rule lower_colon)
  have "m = [c1, c2, c3, c4, c5, c6, c7, c8] @ CHR '':'' # drop (length ''simulate:'') m"
    using mx unfolding x c9 by simp
  then show ?thesis using ns by blast
qed

lemma hd_if_pair: "hd (if c then [a] else [a, b]) = a"
  by simp

lemma split_ws1_hd:
  assumes "m \<noteq> []" "\<not> py_isspace (hd m)"
  shows "hd (py_split_ws1 m) = takeWhile (\<lambda>c. \<not> py_isspace c) m"
proof -
  have d: "dropWhile py_isspace m = m" using assms(2) by (simp add: dropWhile_eq_self_iff)
  show ?thesis by (simp only: py_split_ws1_def d Let_def assms(1) if_False hd_if_pair)
qed

lemma split_ws1_two: "length (py_split_ws1 m) = 2 \<Longrightarrow> \<exists>tok rest. py_split_ws1 m = [tok, rest]"
proof -
  assume "length (py_split_ws1 m) = 2"
  then obtain x xs where "py_split_ws1 m = x # xs" "length xs = 1"
    by (cases "py_split_ws1 m") auto
  moreover then obtain y where "xs = [y]" by (cases xs) auto
  ultimately show ?thesis by blast
qed

lemma colon_not_space: "\<not> py_isspace (CHR '':'')"
  by (simp add: py_isspace_def)

lemma split_ws1_tok:
  assumes "py_split_ws1 m = [tok, rest]" "m = p @ CHR '':'' # q" "\<forall>c\<in>set p. \<not> py_isspace c"
  shows "CHR '':'' \<in> set tok"
proof -
  let ?p = "p @ [CHR '':'']"
  have m: "m = ?p @ q" using assms(2) by simp
  have ns: "\<forall>c\<in>set ?p. \<not> py_isspace c" using assms(3) colon_not_space by simp
  have h: "\<not> py_isspace (hd m)" unfolding m using ns by (cases p) simp_all
  have t: "takeWhile (\<lambda>c. \<not> py_isspace c) m = ?p @ takeWhile (\<lambda>c. \<not> py_isspace c) q"
    unfolding m using ns by (simp add: takeWhile_append2)
  have ne: "m \<noteq> []" by (simp add: m)
  have "hd (py_split_ws1 m) = takeWhile (\<lambda>c. \<not> py_isspace c) m"
    using ne h by (rule split_ws1_hd)
  then have "tok = takeWhile (\<lambda>c. \<not> py_isspace c) m" by (simp add: assms(1))
  then show ?thesis by (simp add: t)
qed

lemma handle_line_simulate_fires:
  assumes "startswith (py_lower message) ''simulate:''" "py_split_ws1 message = [tok, rest]"
  shows "handle_line_simulate node_addr message =
     Inr (''fd58:sim::'' @
            takeWhile (\<lambda>c. c \<noteq> CHR '':'') (tl (dropWhile (\<lambda>c. c \<noteq> CHR '':'') tok)), rest)"
proof -
  from simulate_prefix [OF assms(1)] obtain p q where
    "message = p @ CHR '':'' # q" "\<forall>c\<in>set p. \<not> py_isspace c" by blast
  with assms(2) have "CHR '':'' \<in> set tok" by (rule split_ws1_tok)
  then have "py_index (py_split_sep (CHR '':'') tok) 1 =
      Inr (takeWhile (\<lambda>c. c \<noteq> CHR '':'') (tl (dropWhile (\<lambda>c. c \<noteq> CHR '':'') tok)))"
    by (rule py_split_sep_field)
  then show ?thesis using assms by (simp add: handle_line_simulate_def)
qed

lemma handle_line_simulate_total: "\<exists>p. handle_line_simulate node_addr message = Inr p"
proof (cases "startswith (py_lower message) ''simulate:'' \<and> length (py_split_ws1 message) = 2")
  case True
  then obtain tok rest where "py_split_ws1 message = [tok, rest]" using split_ws1_two by blast
  with True show ?thesis using handle_line_simulate_fires by blast
next
  case False
  then show ?thesis by (auto simp add: handle_line_simulate_def Let_def)
qed

lemma handle_line_parse_total: "\<exists>r. handle_line_parse line = Inr r"
proof (cases "handle_line_match line")
  case None
  then show ?thesis by (simp add: handle_line_parse_def)
next
  case (Some p)
  obtain a m where p: "p = (a, m)" by (cases p)
  obtain q where "handle_line_simulate a m = Inr q" using handle_line_simulate_total by blast
  then show ?thesis using Some p by (simp add: handle_line_parse_def)
qed

lemma handle_line_total:
  assumes "wf s"
  shows "\<exists>s'. handle_line s line now1 now2 = Inr s'"
proof -
  obtain r where r: "handle_line_parse line = Inr r" using handle_line_parse_total by blast
  show ?thesis
  proof (cases r)
    case None
    then show ?thesis using r by (simp add: handle_line_def)
  next
    case (Some p)
    obtain a m where p: "p = (a, m)" by (cases p)
    have "wf_layout s" using assms by (simp add: wf_def)
    then obtain s1 where "add_node s a = Inr s1" using add_node_total by blast
    then show ?thesis using r Some p by (simp add: handle_line_def Let_def)
  qed
qed

section \<open>The claims\<close>

lemma reachable_line:
  assumes "reachable s"
  shows "reachable (projr (handle_line s line now1 now2))"
proof -
  obtain s' where h: "handle_line s line now1 now2 = Inr s'"
    using handle_line_total [OF reachable_wf [OF assms]] by blast
  then have "reachable s'" using assms reach_line by blast
  then show ?thesis by (simp add: h)
qed

lemma reachable_init: "reachable (projr init)"
  by (rule reach_init) (simp add: init_eq)

lemma layout_circle:
  "0 < k \<Longrightarrow> layout k \<noteq> CENTER_POS"
proof
  assume k: "0 < k" and e: "layout k = CENTER_POS"
  let ?t = "radians (real k * (360 / real MAX_NODES))"
  from e k have "200 * cos ?t = 0" "200 * sin ?t = 0"
    by (simp_all add: layout_def prod_eq_iff)
  then have "cos ?t = 0" "sin ?t = 0" by simp_all
  then have "(sin ?t)\<^sup>2 + (cos ?t)\<^sup>2 = 0" by simp
  then show False by simp
qed

lemma key_index:
  assumes "wf_layout s" "a \<in> set (keys s)" "a \<noteq> leader_addr"
  shows "\<exists>i. 0 < i \<and> i < length (keys s) \<and> keys s ! i = a"
proof -
  from assms(2) obtain i where i: "i < length (keys s)" "keys s ! i = a"
    by (auto simp add: in_set_conv_nth)
  have "keys s \<noteq> []" "hd (keys s) = leader_addr" using assms(1) by (simp_all add: wf_layout_def)
  then have "keys s ! 0 = leader_addr" using hd_conv_nth [of "keys s"] by simp
  then have "i \<noteq> 0" using i(2) assms(3) by (cases i) auto
  then have "0 < i \<and> i < length (keys s) \<and> keys s ! i = a" using i by simp
  then show ?thesis by blast
qed

text \<open>
  Claim C6. In every state the program reaches, whatever lines have been handled and however
  often the status timer has fired, the leader is the center node, its position is the
  center \<open>(450, 300)\<close>, and its brush is orange: \<open>check_node_activity\<close> skips it, so it is
  never painted red, the colour of a stale node.
\<close>

theorem leader_fixed_point:
  "reachable s \<Longrightarrow>
     center_node s = Some leader_addr \<and> positions s leader_addr = Some (450, 300) \<and>
     node_brush s leader_addr = Some Orange"
proof -
  assume "reachable s"
  then have w: "wf s" by (rule reachable_wf)
  then have l: "wf_layout s" and d: "wf_leader s" by (simp_all add: wf_def)
  have "positions s leader_addr = Some CENTER_POS" using l by (rule wf_layout_leader_pos)
  then show ?thesis using l d by (simp add: wf_layout_def wf_leader_def CENTER_POS_def)
qed

theorem leader_fixed_point_witness:
  "reachable (check_node_activity (projr (handle_line (projr init) ''from fd00::1 hello'' 0 0)) 60000000) \<and>
   positions (check_node_activity (projr (handle_line (projr init) ''from fd00::1 hello'' 0 0)) 60000000)
     leader_addr = Some (450, 300) \<and>
   node_brush (check_node_activity (projr (handle_line (projr init) ''from fd00::1 hello'' 0 0)) 60000000)
     leader_addr = Some Orange"
proof -
  have r: "reachable (check_node_activity (projr (handle_line (projr init) ''from fd00::1 hello'' 0 0)) 60000000)"
    by (intro reach_tick reachable_line reachable_init)
  show ?thesis using r leader_fixed_point [OF r] by simp
qed

text \<open>
  Claim C7. In every reachable state the dictionary \<open>edges\<close> has exactly the nodes other than
  the leader as keys, so each of them has one edge and the leader none. The edge of a node
  runs from that node's position to the leader's position (the center), and no node other
  than the leader sits at the center: no edge joins two nodes that are not the leader.
\<close>

theorem star_topology:
  "reachable s \<Longrightarrow>
     center_node s = Some leader_addr \<and> positions s leader_addr = Some CENTER_POS \<and>
     edges s leader_addr = None \<and> dom (edges s) = set (keys s) - {leader_addr} \<and>
     (\<forall>a \<in> set (keys s). a \<noteq> leader_addr \<longrightarrow>
        (\<exists>p. positions s a = Some p \<and> p \<noteq> CENTER_POS \<and>
             edges s a = Some (star_line p CENTER_POS)))"
proof -
  assume "reachable s"
  then have w: "wf s" by (rule reachable_wf)
  then have l: "wf_layout s" and e: "wf_edges s" by (simp_all add: wf_def)
  have c: "center_node s = Some leader_addr" using l by (simp add: wf_layout_def)
  have p: "positions s leader_addr = Some CENTER_POS" using l by (rule wf_layout_leader_pos)
  have d: "dom (edges s) = set (keys s) - {leader_addr}" using e by (simp add: wf_edges_def)
  then have n: "edges s leader_addr = None" by blast
  have "\<exists>p. positions s a = Some p \<and> p \<noteq> CENTER_POS \<and> edges s a = Some (star_line p CENTER_POS)"
    if a: "a \<in> set (keys s)" "a \<noteq> leader_addr" for a
  proof -
    from key_index [OF l a] obtain i where i: "0 < i" "i < length (keys s)" "keys s ! i = a"
      by blast
    have "positions s a = Some (layout i)" using l i by (auto simp add: wf_layout_def)
    moreover have "edges s a = Some (star_line (layout i) CENTER_POS)"
      using e i by (auto simp add: wf_edges_def)
    moreover have "layout i \<noteq> CENTER_POS" using i(1) by (rule layout_circle)
    ultimately show ?thesis by blast
  qed
  then show ?thesis using c p d n by blast
qed

lemma projr_init:
  "projr init = empty_visualizer\<lparr>center_node := Some leader_addr,
       nodes := [new_item leader_addr Orange CENTER_POS],
       positions := [leader_addr \<mapsto> CENTER_POS]\<rparr>"
  by (simp add: init_eq)

lemma keys_init: "keys (projr init) = [leader_addr]"
  by (simp add: projr_init keys_def new_item_def)

lemma handle_line_projr:
  assumes "wf s" "handle_line_parse line = Inr (Some (a, m))"
  shows "\<exists>s1. add_node s a = Inr s1 \<and>
     projr (handle_line s line now1 now2) =
       (add_message s1 a (strftime_HMS now1) m)\<lparr>last_seen := (last_seen s1)(a \<mapsto> now2)\<rparr>"
proof -
  have "wf_layout s" using assms(1) by (simp add: wf_def)
  then obtain s1 where "add_node s a = Inr s1" using add_node_total by blast
  then show ?thesis using assms(2) by (simp add: handle_line_def Let_def)
qed

lemma handle_line_keys:
  assumes "wf s" "handle_line_parse line = Inr (Some (a, m))"
  shows "keys (projr (handle_line s line now1 now2)) =
           (if a \<in> set (keys s) then keys s else keys s @ [a])"
proof -
  have l: "wf_layout s" using assms(1) by (simp add: wf_def)
  from handle_line_projr [OF assms] obtain s1 where
    s1: "add_node s a = Inr s1"
    "projr (handle_line s line now1 now2) =
       (add_message s1 a (strftime_HMS now1) m)\<lparr>last_seen := (last_seen s1)(a \<mapsto> now2)\<rparr>"
    by blast
  show ?thesis unfolding s1(2) using add_node_keys_eq [OF l s1(1)] by simp
qed

lemma parse_example: "handle_line_parse ''from fd00::1 hello'' = Inr (Some (''fd00::1'', ''hello''))"
  by code_simp

lemma example_reachable: "reachable example_state"
  unfolding example_state_def by (intro reach_tick reachable_line reachable_init)

lemma example_keys: "keys example_state = [leader_addr, ''fd00::1'']"
proof -
  have "keys (projr (handle_line (projr init) ''from fd00::1 hello'' 0 0)) =
      [leader_addr, ''fd00::1'']"
    using handle_line_keys [OF reachable_wf [OF reachable_init] parse_example]
    by (simp add: keys_init leader_addr_def)
  then show ?thesis by (simp add: example_state_def)
qed

lemma example_last_seen: "last_seen example_state ''fd00::1'' = Some 0"
proof -
  from handle_line_projr [OF reachable_wf [OF reachable_init] parse_example]
  obtain s1 where
    "projr (handle_line (projr init) ''from fd00::1 hello'' 0 0) =
       (add_message s1 ''fd00::1'' (strftime_HMS 0) ''hello'')\<lparr>last_seen :=
          (last_seen s1)(''fd00::1'' \<mapsto> 0)\<rparr>"
    by blast
  then show ?thesis by (simp add: example_state_def)
qed

lemma node_brush_tick:
  "addr \<in> set (keys s) \<Longrightarrow>
     node_brush (check_node_activity s now) addr =
       (if center_node s = Some addr then node_brush s addr
        else (case last_seen s addr of
                None \<Rightarrow> node_brush s addr
              | Some last_time \<Rightarrow>
                  Some (if now - last_time \<le> INACTIVE_TIMEOUT * 1000000 then Skyblue else Red)))"
proof -
  assume "addr \<in> set (keys s)"
  then obtain v where v: "map_of (nodes s) addr = Some v"
    by (metis keys_def map_of_eq_None_iff not_Some_eq set_map)
  obtain node label where nl: "v = (node, label)" by (cases v)
  have b: "node_brush s addr = Some (brush node)" by (simp add: node_brush_def v nl)
  have "node_brush (check_node_activity s now) addr =
      Some (brush (fst (snd (check_node s now (addr, node, label)))))"
    by (simp add: node_brush_check v nl)
  then show ?thesis
    by (simp add: b check_node_def Let_def split: option.splits)
qed

text \<open>
  Claim C2, amended. After \<open>check_node_activity\<close> at time \<open>now\<close>, a node that is not the
  center node and has a \<open>last_seen\<close> entry is sky blue (active) when
  \<open>now - last_seen\<close> is at most \<open>INACTIVE_TIMEOUT\<close> seconds and red (stale) otherwise; a
  node without a \<open>last_seen\<close> entry keeps its brush, and so does the center node.
\<close>

theorem tick_classification:
  "addr \<in> set (keys s) \<Longrightarrow>
     node_brush (check_node_activity s now) addr =
       (if center_node s = Some addr then node_brush s addr
        else (case last_seen s addr of
                None \<Rightarrow> node_brush s addr
              | Some last_time \<Rightarrow>
                  Some (if now - last_time \<le> INACTIVE_TIMEOUT * 1000000 then Skyblue else Red)))"
  by (rule node_brush_tick)

theorem tick_classification_witness:
  "''fd00::1'' \<in> set (keys example_state) \<and>
   node_brush (check_node_activity example_state 10000000) ''fd00::1'' = Some Skyblue \<and>
   node_brush (check_node_activity example_state 15000001) ''fd00::1'' = Some Red"
proof -
  have k: "''fd00::1'' \<in> set (keys example_state)" by (simp add: example_keys)
  have c: "center_node example_state = Some leader_addr"
    using reachable_wf [OF example_reachable] by (simp add: wf_def wf_layout_def)
  show ?thesis
    using k tick_classification [OF k, of 10000000] tick_classification [OF k, of 15000001]
    by (simp add: c example_last_seen leader_addr_def INACTIVE_TIMEOUT_def)
qed

lemma wf_init_state: "wf (projr init)"
  by (rule reachable_wf [OF reachable_init])

lemma unseen_eq:
  "unseen_state = (projr init)\<lparr>nodes := nodes (projr init) @ [new_item ''fd00::2'' Skyblue (layout 1)],
       positions := (positions (projr init))(''fd00::2'' \<mapsto> layout 1),
       edges := (edges (projr init))(''fd00::2'' \<mapsto> star_line (layout 1) CENTER_POS)\<rparr>"
proof -
  have l: "wf_layout (projr init)" using wf_init_state by (simp add: wf_def)
  have n: "''fd00::2'' \<notin> set (keys (projr init))" by (simp add: keys_init leader_addr_def)
  have "length (nodes (projr init)) = 1" by (simp add: projr_init)
  then show ?thesis unfolding unseen_state_def using add_node_wf_new [OF l n] by simp
qed

lemma unseen_keys: "keys unseen_state = [leader_addr, ''fd00::2'']"
  by (simp add: unseen_eq keys_init)

text \<open>
  Claim C2 as stated fails for a node without \<open>last_seen\<close>: such a node, registered by
  \<open>add_node\<close> and not the center node, is still sky blue after a tick, not red.
\<close>

theorem tick_unseen_counterexample:
  "''fd00::2'' \<in> set (keys unseen_state) \<and> center_node unseen_state \<noteq> Some ''fd00::2'' \<and>
   last_seen unseen_state ''fd00::2'' = None \<and>
   node_brush (check_node_activity unseen_state 0) ''fd00::2'' = Some Skyblue"
proof -
  have k: "''fd00::2'' \<in> set (keys unseen_state)" by (simp add: unseen_keys)
  have c: "center_node unseen_state = Some leader_addr"
    by (simp add: unseen_eq projr_init)
  have l: "last_seen unseen_state ''fd00::2'' = None"
    by (simp add: unseen_eq projr_init empty_visualizer_def)
  have b: "node_brush unseen_state ''fd00::2'' = Some Skyblue"
    by (simp add: unseen_eq projr_init node_brush_def new_item_def leader_addr_def)
  show ?thesis using k node_brush_tick [OF k, of 0] by (simp add: c l b leader_addr_def)
qed

text \<open>The star invariant of claim C7 at the example state.\<close>

theorem star_topology_witness:
  "reachable example_state \<and> ''fd00::1'' \<in> set (keys example_state) \<and>
   ''fd00::1'' \<noteq> leader_addr \<and> edges example_state leader_addr = None \<and>
   edges example_state ''fd00::1'' \<noteq> None \<and>
   positions example_state ''fd00::1'' \<noteq> Some CENTER_POS"
proof -
  have k: "''fd00::1'' \<in> set (keys example_state)" by (simp add: example_keys)
  have n: "''fd00::1'' \<noteq> leader_addr" by (simp add: leader_addr_def)
  from star_topology [OF example_reachable]
  have e: "edges example_state leader_addr = None"
    and a: "\<forall>a \<in> set (keys example_state). a \<noteq> leader_addr \<longrightarrow>
        (\<exists>p. positions example_state a = Some p \<and> p \<noteq> CENTER_POS \<and>
             edges example_state a = Some (star_line p CENTER_POS))"
    by blast+
  from a k n obtain p where "positions example_state ''fd00::1'' = Some p" "p \<noteq> CENTER_POS"
    "edges example_state ''fd00::1'' = Some (star_line p CENTER_POS)" by blast
  then show ?thesis using example_reachable k n e by simp
qed

lemma add_node_logs:
  "add_node s addr = Inr s' \<Longrightarrow>
   message_logs s' = message_logs s \<and> dialogs s' = dialogs s \<and> last_seen s' = last_seen s"
  by (auto simp add: add_node_def draw_connection_def Let_def
      split: if_splits option.splits)

lemma getHistory_handle_line:
  assumes "handle_line s line now1 now2 = Inr s'" "handle_line_parse line = Inr (Some (b, m))"
  shows "getHistory s' a =
           (if b = a then getHistory s a @ [(strftime_HMS now1, m)] else getHistory s a)"
proof -
  from handle_line_cases [OF assms(1)] assms(2) obtain s1 where
    s1: "add_node s b = Inr s1"
    "s' = (add_message s1 b (strftime_HMS now1) m)\<lparr>last_seen := (last_seen s1)(b \<mapsto> now2)\<rparr>"
    by auto
  have g: "getHistory s1 x = getHistory s x" for x
    using add_node_logs [OF s1(1)] by (simp add: getHistory_def)
  have "message_logs s' = (message_logs s1)(b \<mapsto> getHistory s1 b @ [(strftime_HMS now1, m)])"
    unfolding s1(2) by (simp add: add_message_logs)
  then have "getHistory s' a =
      (if b = a then getHistory s1 b @ [(strftime_HMS now1, m)] else getHistory s1 a)"
    by (simp add: getHistory_def)
  then show ?thesis by (simp add: g)
qed

lemma getHistory_step:
  assumes "handle_line s line now1 now2 = Inr s'"
  shows "prefix (getHistory s a) (getHistory s' a)"
proof -
  obtain r where r: "handle_line_parse line = Inr r" using handle_line_parse_total by blast
  show ?thesis
  proof (cases r)
    case None
    then have "s' = s" using assms r by (simp add: handle_line_def)
    then show ?thesis by simp
  next
    case (Some p)
    obtain b m where "p = (b, m)" by (cases p)
    then have "handle_line_parse line = Inr (Some (b, m))" using r Some by simp
    from getHistory_handle_line [OF assms this] show ?thesis by simp
  qed
qed

lemma getHistory_tick [simp]: "getHistory (check_node_activity s now) a = getHistory s a"
  by (simp add: getHistory_def)

lemma getHistory_click [simp]: "getHistory (handler s addr) a = getHistory s a"
  by (simp add: getHistory_def)

lemma run_prefix: "run s s' \<Longrightarrow> prefix (getHistory s a) (getHistory s' a)"
proof (induction rule: run.induct)
  case (run_refl s)
  then show ?case by simp
next
  case (run_line s s1 line now1 now2 s2)
  then show ?case using getHistory_step prefix_order.trans by blast
next
  case (run_tick s s1 now)
  then show ?case by simp
next
  case (run_click s s1 addr)
  then show ?case by simp
qed

text \<open>
  Claim C8. Over any sequence of handled lines, timer ticks and clicks, from any state, the
  message history of an address before is a prefix of its history after: its length never
  decreases and earlier records are neither removed, changed nor reordered. A handled line
  appends one record to the history of its effective address and leaves the history of
  every other address unchanged.
\<close>

theorem history_monotone:
  "(run s s' \<longrightarrow>
      prefix (getHistory s a) (getHistory s' a) \<and>
      length (getHistory s a) \<le> length (getHistory s' a)) \<and>
   (handle_line s line now1 now2 = Inr s'' \<and> handle_line_parse line = Inr (Some (b, m)) \<longrightarrow>
      getHistory s'' a =
        (if b = a then getHistory s a @ [(strftime_HMS now1, m)] else getHistory s a))"
  using run_prefix [of s s' a] getHistory_handle_line [of s line now1 now2 s'' b m a]
  by (auto dest: prefix_length_le)

lemma handle_line_Inr:
  "wf s \<Longrightarrow> handle_line s line now1 now2 = Inr (projr (handle_line s line now1 now2))"
  using handle_line_total [of s line now1 now2] by auto

lemma getHistory_init: "getHistory (projr init) a = []"
  by (simp add: getHistory_def projr_init empty_visualizer_def)

lemma strftime_0: "strftime_HMS 0 = ''00:00:00''"
  by (simp add: strftime_HMS_def two_digits_def)

theorem history_monotone_witness:
  "run (projr init) example_state \<and>
   handle_line (projr init) ''from fd00::1 hello'' 0 0 =
     Inr (projr (handle_line (projr init) ''from fd00::1 hello'' 0 0)) \<and>
   handle_line_parse ''from fd00::1 hello'' = Inr (Some (''fd00::1'', ''hello'')) \<and>
   prefix (getHistory (projr init) ''fd00::1'') (getHistory example_state ''fd00::1'') \<and>
   getHistory (projr (handle_line (projr init) ''from fd00::1 hello'' 0 0)) ''fd00::1'' =
     [(''00:00:00'', ''hello'')]"
proof -
  have h: "handle_line (projr init) ''from fd00::1 hello'' 0 0 =
     Inr (projr (handle_line (projr init) ''from fd00::1 hello'' 0 0))"
    using wf_init_state by (rule handle_line_Inr)
  have r: "run (projr init) example_state"
    unfolding example_state_def by (rule run_tick [OF run_line [OF run_refl h]])
  show ?thesis
    using r h parse_example
      history_monotone [of "projr init" example_state "''fd00::1''" "''from fd00::1 hello''" 0 0
        "projr (handle_line (projr init) ''from fd00::1 hello'' 0 0)" "''fd00::1''" "''hello''"]
    by (simp add: getHistory_init strftime_0)
qed

lemma layout_formula:
  "layout i =
     (if i = 0 then (450, 300)
      else (450 + 200 * cos (radians (real i * (360 / real MAX_NODES))),
            300 + 200 * sin (radians (real i * (360 / real MAX_NODES)))))"
  by (simp add: layout_def CENTER_POS_def)

lemma wf_layout_nonempty: "wf_layout s \<Longrightarrow> 0 < length (keys s)"
  by (simp add: wf_layout_def)

lemma add_node_reachable_new:
  assumes "reachable s" "addr \<notin> set (keys s)" "add_node s addr = Inr s'"
  shows "keys s' = keys s @ [addr]"
    "positions s' = (positions s)(addr \<mapsto> layout (length (keys s)))"
    "edges s' = (edges s)(addr \<mapsto> star_line (layout (length (keys s))) CENTER_POS)"
    "center_node s' = center_node s" "message_logs s' = message_logs s"
    "dialogs s' = dialogs s" "last_seen s' = last_seen s"
proof -
  have l: "wf_layout s" using reachable_wf [OF assms(1)] by (simp add: wf_def)
  have len: "length (nodes s) = length (keys s)" by (simp add: keys_def)
  have s': "s' = s\<lparr>nodes := nodes s @ [new_item addr Skyblue (layout (length (nodes s)))],
       positions := (positions s)(addr \<mapsto> layout (length (nodes s))),
       edges := (edges s)(addr \<mapsto> star_line (layout (length (nodes s))) CENTER_POS)\<rparr>"
    using add_node_wf_new [OF l assms(2)] assms(3) by simp
  show "keys s' = keys s @ [addr]" unfolding s' by simp
  show "positions s' = (positions s)(addr \<mapsto> layout (length (keys s)))"
    unfolding s' len by simp
  show "edges s' = (edges s)(addr \<mapsto> star_line (layout (length (keys s))) CENTER_POS)"
    unfolding s' len by simp
  show "center_node s' = center_node s" "message_logs s' = message_logs s"
    "dialogs s' = dialogs s" "last_seen s' = last_seen s"
    unfolding s' by simp_all
qed

text \<open>
  Claim C4. In every reachable state the node at index \<open>i\<close> of the insertion order has
  the center \<open>(450, 300)\<close> as position when \<open>i = 0\<close> (the leader) and otherwise the point
  at angle \<open>i * (360 / MAX_NODES)\<close> degrees on the circle of radius 200 around the center.
  A node registered when \<open>k\<close> nodes exist is appended to the order and gets the point at
  angle \<open>k * (360 / MAX_NODES)\<close> degrees; the other positions do not change. Positions are
  thus a function of the order of arrival. (Coordinates are real numbers here.)
\<close>

theorem layout_position:
  "reachable s \<Longrightarrow>
     (i < length (keys s) \<longrightarrow>
        positions s (keys s ! i) =
          Some (if i = 0 then (450, 300)
                else (450 + 200 * cos (radians (real i * (360 / real MAX_NODES))),
                      300 + 200 * sin (radians (real i * (360 / real MAX_NODES)))))) \<and>
     (addr \<notin> set (keys s) \<and> add_node s addr = Inr s' \<longrightarrow>
        keys s' = keys s @ [addr] \<and>
        positions s' = (positions s)(addr \<mapsto>
          (450 + 200 * cos (radians (real (length (keys s)) * (360 / real MAX_NODES))),
           300 + 200 * sin (radians (real (length (keys s)) * (360 / real MAX_NODES))))))"
proof -
  assume r: "reachable s"
  have l: "wf_layout s" using reachable_wf [OF r] by (simp add: wf_def)
  have "positions s (keys s ! i) = Some (layout i)" if "i < length (keys s)"
    using l that by (simp add: wf_layout_def)
  moreover have "keys s' = keys s @ [addr] \<and>
      positions s' = (positions s)(addr \<mapsto> layout (length (keys s)))"
    if "addr \<notin> set (keys s)" "add_node s addr = Inr s'"
    using add_node_reachable_new(1,2) [OF r that] by simp
  moreover have "layout (length (keys s)) =
      (450 + 200 * cos (radians (real (length (keys s)) * (360 / real MAX_NODES))),
       300 + 200 * sin (radians (real (length (keys s)) * (360 / real MAX_NODES))))"
    using wf_layout_nonempty [OF l] by (simp add: layout_formula)
  ultimately show ?thesis by (simp add: layout_formula)
qed

lemma add_node_Inr: "wf s \<Longrightarrow> add_node s addr = Inr (projr (add_node s addr))"
  using add_node_total [of s addr] by (auto simp add: wf_def)

theorem layout_position_witness:
  "reachable example_state \<and> (1::nat) < length (keys example_state) \<and>
   ''fd00::9'' \<notin> set (keys example_state) \<and>
   add_node example_state ''fd00::9'' = Inr (projr (add_node example_state ''fd00::9'')) \<and>
   positions example_state ''fd00::1'' =
     Some (450 + 200 * cos (radians (real 1 * (360 / real MAX_NODES))),
           300 + 200 * sin (radians (real 1 * (360 / real MAX_NODES)))) \<and>
   positions (projr (add_node example_state ''fd00::9'')) ''fd00::9'' =
     Some (450 + 200 * cos (radians (real 2 * (360 / real MAX_NODES))),
           300 + 200 * sin (radians (real 2 * (360 / real MAX_NODES))))"
proof -
  have i: "(1::nat) < length (keys example_state)" by (simp add: example_keys)
  have n: "''fd00::9'' \<notin> set (keys example_state)" by (simp add: example_keys leader_addr_def)
  have a: "add_node example_state ''fd00::9'' = Inr (projr (add_node example_state ''fd00::9''))"
    using reachable_wf [OF example_reachable] by (rule add_node_Inr)
  from layout_position [OF example_reachable, of 1 "''fd00::9''"
      "projr (add_node example_state ''fd00::9'')"] i n a
  have "positions example_state (keys example_state ! 1) =
     Some (450 + 200 * cos (radians (real 1 * (360 / real MAX_NODES))),
           300 + 200 * sin (radians (real 1 * (360 / real MAX_NODES))))"
    and "positions (projr (add_node example_state ''fd00::9'')) =
      (positions example_state)(''fd00::9'' \<mapsto>
          (450 + 200 * cos (radians (real (length (keys example_state)) * (360 / real MAX_NODES))),
           300 + 200 * sin (radians (real (length (keys example_state)) * (360 / real MAX_NODES)))))"
    by simp_all
  then show ?thesis using example_reachable i n a by (simp add: example_keys)
qed

lemma handle_line_known:
  assumes "a \<in> set (keys s)" "handle_line_parse line = Inr (Some (a, m))"
  shows "handle_line s line now1 now2 =
     Inr ((add_message s a (strftime_HMS now1) m)\<lparr>last_seen := (last_seen s)(a \<mapsto> now2)\<rparr>)"
  using assms by (simp add: handle_line_def add_node_known keys_def Let_def)

lemma add_message_no_dialog:
  "dialogs s a = None \<Longrightarrow>
   add_message s a ts m = s\<lparr>message_logs := (message_logs s)(a \<mapsto> getHistory s a @ [(ts, m)])\<rparr>"
  by (simp add: add_message_def getHistory_def Let_def)

text \<open>
  Claim C5. Two lines with the same effective address \<open>a\<close>, unknown before the first, are
  handled one after the other from a reachable state. The first registers \<open>a\<close> as one new
  node. The second leaves the nodes and every other field as they are, except that it appends
  its record to the message history of \<open>a\<close> and sets \<open>last_seen\<close> of \<open>a\<close>.
\<close>

theorem ingest_idempotent:
  assumes "reachable s" "a \<notin> set (keys s)"
    and "handle_line_parse line1 = Inr (Some (a, m1))"
    and "handle_line_parse line2 = Inr (Some (a, m2))"
    and "handle_line s line1 now1 now2 = Inr s1"
    and "handle_line s1 line2 now3 now4 = Inr s2"
  shows "keys s1 = keys s @ [a] \<and> keys s2 = keys s1 \<and>
     s2 = s1\<lparr>message_logs := (message_logs s1)(a \<mapsto>
                 getHistory s1 a @ [(strftime_HMS now3, m2)]),
              last_seen := (last_seen s1)(a \<mapsto> now4)\<rparr>"
proof -
  have w: "wf s" using assms(1) by (rule reachable_wf)
  then have g: "wf_logs s" by (simp add: wf_def)
  from handle_line_cases [OF assms(5)] assms(3) obtain s0 where
    s0: "add_node s a = Inr s0"
    and s1: "s1 = (add_message s0 a (strftime_HMS now1) m1)\<lparr>last_seen :=
        (last_seen s0)(a \<mapsto> now2)\<rparr>"
    by auto
  have k0: "keys s0 = keys s @ [a]" and d0: "dialogs s0 = dialogs s"
    using add_node_reachable_new [OF assms(1,2) s0] by simp_all
  have k1: "keys s1 = keys s @ [a]" unfolding s1 by (simp add: k0)
  have "a \<notin> dom (dialogs s)" using g assms(2) by (auto simp add: wf_logs_def)
  then have "dialogs s0 a = None" unfolding d0 by blast
  then have d1: "dialogs s1 a = None" unfolding s1 by (simp add: add_message_dialogs)
  have in1: "a \<in> set (keys s1)" by (simp add: k1)
  have "handle_line s1 line2 now3 now4 =
     Inr ((add_message s1 a (strftime_HMS now3) m2)\<lparr>last_seen := (last_seen s1)(a \<mapsto> now4)\<rparr>)"
    using in1 assms(4) by (rule handle_line_known)
  then have s2: "s2 = (add_message s1 a (strftime_HMS now3) m2)\<lparr>last_seen :=
      (last_seen s1)(a \<mapsto> now4)\<rparr>"
    using assms(6) by simp
  have "s2 = s1\<lparr>message_logs := (message_logs s1)(a \<mapsto>
                 getHistory s1 a @ [(strftime_HMS now3, m2)]),
              last_seen := (last_seen s1)(a \<mapsto> now4)\<rparr>"
    unfolding s2 add_message_no_dialog [OF d1] by simp
  moreover from this have "keys s2 = keys s1" by (simp add: keys_def)
  ultimately show ?thesis using k1 by simp
qed

lemma parse_again: "handle_line_parse ''from fd00::1 again'' = Inr (Some (''fd00::1'', ''again''))"
  by code_simp

theorem ingest_idempotent_witness:
  "reachable (projr init) \<and> ''fd00::1'' \<notin> set (keys (projr init)) \<and>
   handle_line_parse ''from fd00::1 hello'' = Inr (Some (''fd00::1'', ''hello'')) \<and>
   handle_line_parse ''from fd00::1 again'' = Inr (Some (''fd00::1'', ''again'')) \<and>
   keys (projr (handle_line (projr init) ''from fd00::1 hello'' 0 0)) =
     [leader_addr, ''fd00::1''] \<and>
   keys (projr (handle_line (projr (handle_line (projr init) ''from fd00::1 hello'' 0 0))
           ''from fd00::1 again'' 5000000 5000000)) =
     keys (projr (handle_line (projr init) ''from fd00::1 hello'' 0 0))"
proof -
  let ?s1 = "projr (handle_line (projr init) ''from fd00::1 hello'' 0 0)"
  let ?s2 = "projr (handle_line ?s1 ''from fd00::1 again'' 5000000 5000000)"
  have n: "''fd00::1'' \<notin> set (keys (projr init))" by (simp add: keys_init leader_addr_def)
  have h1: "handle_line (projr init) ''from fd00::1 hello'' 0 0 = Inr ?s1"
    using wf_init_state by (rule handle_line_Inr)
  have "reachable ?s1" using reachable_init by (rule reachable_line)
  then have "wf ?s1" by (rule reachable_wf)
  then have h2: "handle_line ?s1 ''from fd00::1 again'' 5000000 5000000 = Inr ?s2"
    by (rule handle_line_Inr)
  from ingest_idempotent [OF reachable_init n parse_example parse_again h1 h2]
  have "keys ?s1 = keys (projr init) @ [''fd00::1'']" "keys ?s2 = keys ?s1" by simp_all
  then show ?thesis using reachable_init n parse_example parse_again by (simp add: keys_init)
qed

lemma parse_hi:
  assumes "a \<noteq> []" "\<forall>c\<in>set a. re_class c"
  shows "handle_line_parse (''from '' @ a @ '' hi'') = Inr (Some (a, ''hi''))"
proof -
  have "re_search ([] @ ''from '' @ a @ '' '' @ ''hi'') = Some (a, ''hi'')"
    using assms by (intro re_search_direct) simp_all
  then have "re_search (''from '' @ a @ '' hi'') = Some (a, ''hi'')" by simp
  moreover have "py_strip ''hi'' = ''hi''" by code_simp
  ultimately have m: "handle_line_match (''from '' @ a @ '' hi'') = Some (a, ''hi'')"
    by (simp add: handle_line_match_def)
  have "\<not> startswith (py_lower ''hi'') ''simulate:''" by (simp add: startswith_def py_lower_def)
  then have "handle_line_simulate a ''hi'' = Inr (a, ''hi'')"
    by (simp add: handle_line_simulate_def)
  then show ?thesis unfolding handle_line_parse_def m by simp
qed

lemma wf_projr_line: "wf s \<Longrightarrow> wf (projr (handle_line s line now1 now2))"
  using wf_handle_line [OF _ handle_line_Inr] by blast

lemma ingest_all_reachable: "reachable s \<Longrightarrow> reachable (ingest_all s as)"
  by (induction as arbitrary: s) (simp_all add: reachable_line)

lemma ingest_all_keys:
  "wf s \<Longrightarrow> \<forall>a\<in>set as. a \<noteq> [] \<and> (\<forall>c\<in>set a. re_class c) \<Longrightarrow> distinct as \<Longrightarrow>
   set as \<inter> set (keys s) = {} \<Longrightarrow> keys (ingest_all s as) = keys s @ as"
proof (induction as arbitrary: s)
  case Nil
  then show ?case by simp
next
  case (Cons a as)
  let ?s = "projr (handle_line s (''from '' @ a @ '' hi'') 0 0)"
  have p: "handle_line_parse (''from '' @ a @ '' hi'') = Inr (Some (a, ''hi''))"
    using Cons.prems(2) by (intro parse_hi) simp_all
  have k: "keys ?s = keys s @ [a]"
    using handle_line_keys [OF Cons.prems(1) p] Cons.prems(4) by simp
  have "keys (ingest_all ?s as) = keys ?s @ as"
  proof (rule Cons.IH)
    show "wf ?s" using Cons.prems(1) by (rule wf_projr_line)
    show "\<forall>a\<in>set as. a \<noteq> [] \<and> (\<forall>c\<in>set a. re_class c)" using Cons.prems(2) by simp
    show "distinct as" using Cons.prems(3) by simp
    show "set as \<inter> set (keys ?s) = {}" unfolding k using Cons.prems(3,4) by auto
  qed
  then show ?case unfolding ingest_all.simps k by simp
qed

lemma full_reachable: "reachable full_state"
  unfolding full_state_def by (rule ingest_all_reachable [OF reachable_init])

lemma full_keys:
  "keys full_state = [leader_addr, ''fd00::1'', ''fd00::2'', ''fd00::3'', ''fd00::4'',
     ''fd00::5'', ''fd00::6'', ''fd00::7'', ''fd00::8'', ''fd00::9'', ''fd00::a'', ''fd00::b'']"
  unfolding full_state_def
  by (subst ingest_all_keys [OF wf_init_state]) (simp_all add: keys_init leader_addr_def re_class_def)


lemma full_wf: "wf full_state"
  by (rule reachable_wf [OF full_reachable])

text \<open>
  Claim C3 as stated fails: with \<open>MAX_NODES\<close> addresses registered, \<open>add_node\<close> on a
  further address raises nothing and returns with the node appended.
\<close>

theorem capacity_counterexample:
  "length (keys full_state) = MAX_NODES \<and> ''fd00::c'' \<notin> set (keys full_state) \<and>
   \<not> isl (add_node full_state ''fd00::c'') \<and>
   keys (projr (add_node full_state ''fd00::c'')) = keys full_state @ [''fd00::c'']"
proof -
  have l: "length (keys full_state) = MAX_NODES" by (simp add: full_keys MAX_NODES_def)
  have n: "''fd00::c'' \<notin> set (keys full_state)" by (simp add: full_keys leader_addr_def)
  have a: "add_node full_state ''fd00::c'' = Inr (projr (add_node full_state ''fd00::c''))"
    using full_wf by (rule add_node_Inr)
  have i: "\<not> isl (add_node full_state ''fd00::c'')" by (subst a) simp
  have "keys (projr (add_node full_state ''fd00::c'')) = keys full_state @ [''fd00::c'']"
    using full_reachable n a by (rule add_node_reachable_new(1))
  then show ?thesis using l n i by simp
qed

text \<open>
  Claim C3, amended. Once \<open>MAX_NODES\<close> or more addresses are registered, registering a
  further address gives no signal: \<open>add_node\<close> returns normally and the node is appended.
  It gets the point at angle \<open>k * (360 / MAX_NODES)\<close> degrees on the circle, \<open>k\<close> being
  the number of nodes registered before it (an angle of a full turn or more), and an edge
  from there to the center; the leader and the positions and edges of the other nodes are
  unchanged.
\<close>

theorem capacity_accepts_silently:
  "reachable s \<Longrightarrow> MAX_NODES \<le> length (keys s) \<Longrightarrow> addr \<notin> set (keys s) \<Longrightarrow>
     \<exists>s'. add_node s addr = Inr s' \<and> keys s' = keys s @ [addr] \<and>
       center_node s' = Some leader_addr \<and>
       positions s' = (positions s)(addr \<mapsto>
         (450 + 200 * cos (radians (real (length (keys s)) * (360 / real MAX_NODES))),
          300 + 200 * sin (radians (real (length (keys s)) * (360 / real MAX_NODES))))) \<and>
       edges s' = (edges s)(addr \<mapsto>
         star_line
           (450 + 200 * cos (radians (real (length (keys s)) * (360 / real MAX_NODES))),
            300 + 200 * sin (radians (real (length (keys s)) * (360 / real MAX_NODES))))
           CENTER_POS)"
proof -
  assume r: "reachable s" and m: "MAX_NODES \<le> length (keys s)" and n: "addr \<notin> set (keys s)"
  have w: "wf s" using r by (rule reachable_wf)
  then have l: "wf_layout s" by (simp add: wf_def)
  let ?s = "projr (add_node s addr)"
  have a: "add_node s addr = Inr ?s" using w by (rule add_node_Inr)
  note f = add_node_reachable_new [OF r n a]
  have c: "center_node ?s = Some leader_addr" using f(4) l by (simp add: wf_layout_def)
  have p: "layout (length (keys s)) =
      (450 + 200 * cos (radians (real (length (keys s)) * (360 / real MAX_NODES))),
       300 + 200 * sin (radians (real (length (keys s)) * (360 / real MAX_NODES))))"
    using wf_layout_nonempty [OF l] by (simp add: layout_formula)
  have "add_node s addr = Inr ?s \<and> keys ?s = keys s @ [addr] \<and>
       center_node ?s = Some leader_addr \<and>
       positions ?s = (positions s)(addr \<mapsto> layout (length (keys s))) \<and>
       edges ?s = (edges s)(addr \<mapsto> star_line (layout (length (keys s))) CENTER_POS)"
    using a f(1,2,3) c by blast
  then show ?thesis unfolding p by blast
qed

lemma over_full_keys: "keys (ingest_all full_state [''fd00::c'']) = keys full_state @ [''fd00::c'']"
  by (subst ingest_all_keys [OF full_wf]) (simp_all add: full_keys leader_addr_def re_class_def)

theorem capacity_accepts_silently_witness:
  "reachable (ingest_all full_state [''fd00::c'']) \<and>
   MAX_NODES \<le> length (keys (ingest_all full_state [''fd00::c''])) \<and>
   ''fd00::d'' \<notin> set (keys (ingest_all full_state [''fd00::c''])) \<and>
   \<not> isl (add_node (ingest_all full_state [''fd00::c'']) ''fd00::d'') \<and>
   keys (projr (add_node (ingest_all full_state [''fd00::c'']) ''fd00::d'')) =
     keys (ingest_all full_state [''fd00::c'']) @ [''fd00::d'']"
proof -
  let ?s = "ingest_all full_state [''fd00::c'']"
  have r: "reachable ?s" using full_reachable by (rule ingest_all_reachable)
  have m: "MAX_NODES \<le> length (keys ?s)"
    unfolding over_full_keys full_keys by (simp add: MAX_NODES_def)
  have n: "''fd00::d'' \<notin> set (keys ?s)"
    unfolding over_full_keys full_keys by (simp add: leader_addr_def)
  from capacity_accepts_silently [OF r m n] obtain s' where
    "add_node ?s ''fd00::d'' = Inr s'" "keys s' = keys ?s @ [''fd00::d'']"
    by blast
  then have "\<not> isl (add_node ?s ''fd00::d'')"
    "keys (projr (add_node ?s ''fd00::d'')) = keys ?s @ [''fd00::d'']"
    by simp_all
  then show ?thesis using r m n by blast
qed

text \<open>
  Claim C1 as stated fails: on the line of the claim the message text starts with
  \<open>says\<close>, the override does not fire, and the address stays \<open>fd00::1\<close>.
\<close>

theorem simulate_says_counterexample:
  "handle_line_parse ''... from fd00::1 says simulate:alpha hello world'' =
     Inr (Some (''fd00::1'', ''says simulate:alpha hello world'')) \<and>
   handle_line_parse ''... from fd00::1 says simulate:alpha hello world'' \<noteq>
     Inr (Some (''fd58:sim::alpha'', ''hello world''))"
  by code_simp

text \<open>
  Claim C1, amended. The line \<open>... from fd00::1 simulate:alpha hello world\<close>, where the
  directive follows the address directly, gives the address \<open>fd58:sim::alpha\<close> and the
  message \<open>hello world\<close>, and from the start state registers the node
  \<open>fd58:sim::alpha\<close>. The line \<open>... from fd00::1 says simulate:alpha hello world\<close> gives
  the address \<open>fd00::1\<close> and the message \<open>says simulate:alpha hello world\<close>.
\<close>

theorem simulate_remap_example:
  "handle_line_parse ''... from fd00::1 simulate:alpha hello world'' =
     Inr (Some (''fd58:sim::alpha'', ''hello world'')) \<and>
   handle_line_parse ''... from fd00::1 says simulate:alpha hello world'' =
     Inr (Some (''fd00::1'', ''says simulate:alpha hello world'')) \<and>
   keys (projr (handle_line (projr init) ''... from fd00::1 simulate:alpha hello world'' now1 now2)) =
     [leader_addr, ''fd58:sim::alpha''] \<and>
   keys (projr (handle_line (projr init) ''... from fd00::1 says simulate:alpha hello world'' now1 now2)) =
     [leader_addr, ''fd00::1'']"
proof -
  have p1: "handle_line_parse ''... from fd00::1 simulate:alpha hello world'' =
     Inr (Some (''fd58:sim::alpha'', ''hello world''))" by code_simp
  have p2: "handle_line_parse ''... from fd00::1 says simulate:alpha hello world'' =
     Inr (Some (''fd00::1'', ''says simulate:alpha hello world''))" by code_simp
  have k1: "keys (projr (handle_line (projr init)
        ''... from fd00::1 simulate:alpha hello world'' now1 now2)) =
     [leader_addr, ''fd58:sim::alpha'']"
    unfolding handle_line_keys [OF wf_init_state p1] keys_init by (simp add: leader_addr_def)
  have k2: "keys (projr (handle_line (projr init)
        ''... from fd00::1 says simulate:alpha hello world'' now1 now2)) =
     [leader_addr, ''fd00::1'']"
    unfolding handle_line_keys [OF wf_init_state p2] keys_init by (simp add: leader_addr_def)
  show ?thesis using p1 p2 k1 k2 by blast
qed

text \<open>
  Claim C10. When the message starts with \<open>simulate:\<close> in any case and splits at
  whitespace into a first token and a rest, the override never fails, the address becomes
  \<open>fd58:sim::\<close> followed by the part of the first token between its first colon and its
  second colon (or its end), and the message becomes the rest. So \<open>simulate:a:b rest\<close>
  gives \<open>fd58:sim::a\<close>, and \<open>simulate: rest\<close> gives \<open>fd58:sim::\<close> with an empty id.
\<close>

theorem simulate_id_field:
  "(startswith (py_lower message) ''simulate:'' \<and> py_split_ws1 message = [tok, rest] \<longrightarrow>
      handle_line_simulate node_addr message =
        Inr (''fd58:sim::'' @
               takeWhile (\<lambda>c. c \<noteq> CHR '':'') (tl (dropWhile (\<lambda>c. c \<noteq> CHR '':'') tok)),
             rest)) \<and>
   handle_line_simulate node_addr ''simulate:a:b rest'' = Inr (''fd58:sim::a'', ''rest'') \<and>
   handle_line_simulate node_addr ''simulate: rest'' = Inr (''fd58:sim::'', ''rest'') \<and>
   handle_line_parse ''from fd00::1 simulate:a:b rest'' = Inr (Some (''fd58:sim::a'', ''rest'')) \<and>
   handle_line_parse ''from fd00::1 simulate: rest'' = Inr (Some (''fd58:sim::'', ''rest''))"
proof -
  have s1: "startswith (py_lower ''simulate:a:b rest'') ''simulate:''" by code_simp
  have t1: "py_split_ws1 ''simulate:a:b rest'' = [''simulate:a:b'', ''rest'']" by code_simp
  have s2: "startswith (py_lower ''simulate: rest'') ''simulate:''" by code_simp
  have t2: "py_split_ws1 ''simulate: rest'' = [''simulate:'', ''rest'']" by code_simp
  have e1: "handle_line_simulate node_addr ''simulate:a:b rest'' = Inr (''fd58:sim::a'', ''rest'')"
    unfolding handle_line_simulate_fires [OF s1 t1] by simp
  have e2: "handle_line_simulate node_addr ''simulate: rest'' = Inr (''fd58:sim::'', ''rest'')"
    unfolding handle_line_simulate_fires [OF s2 t2] by simp
  have p1: "handle_line_parse ''from fd00::1 simulate:a:b rest'' =
      Inr (Some (''fd58:sim::a'', ''rest''))" by code_simp
  have p2: "handle_line_parse ''from fd00::1 simulate: rest'' =
      Inr (Some (''fd58:sim::'', ''rest''))" by code_simp
  show ?thesis using handle_line_simulate_fires [of message tok rest node_addr] e1 e2 p1 p2
    by blast
qed

theorem simulate_id_field_witness:
  "startswith (py_lower ''SIMULATE:x:y z  w'') ''simulate:'' \<and>
   py_split_ws1 ''SIMULATE:x:y z  w'' = [''SIMULATE:x:y'', ''z  w''] \<and>
   handle_line_simulate ''fd00::1'' ''SIMULATE:x:y z  w'' = Inr (''fd58:sim::x'', ''z  w'')"
proof -
  have s: "startswith (py_lower ''SIMULATE:x:y z  w'') ''simulate:''" by code_simp
  have t: "py_split_ws1 ''SIMULATE:x:y z  w'' = [''SIMULATE:x:y'', ''z  w'']" by code_simp
  show ?thesis
    using s t simulate_id_field [of "''SIMULATE:x:y z  w''" "''SIMULATE:x:y''" "''z  w''" "''fd00::1''"]
    by simp
qed

text \<open>
  Claim C9 as stated fails when the address token is followed by a tab: the text after the
  first whitespace character is \<open>says hello\<close>, the extracted message is \<open>hello\<close>.
\<close>

theorem message_text_counterexample:
  "handle_line_match (''from fd00::1'' @ [CHR 0x09] @ ''says hello'') =
     Some (''fd00::1'', ''hello'') \<and>
   claimed_message_text ([CHR 0x09] @ ''says hello'') = ''says hello''"
  by code_simp

text \<open>
  Claim C9, amended. A line the parser accepts is a prefix, \<open>from\<close> and a space, the
  address token (the whole run of address characters), a gap without any space character,
  one space, the text of group 2, and at most a final newline; the message is that text with
  the whitespace at both ends stripped. So the message is taken after the first space
  character that follows the address token. When the address token is directly followed by a
  space the gap is empty and everything after that space, such as \<open>says\<close>, is message
  text.
\<close>

theorem message_text_after_first_space:
  "(handle_line_match line = Some (a, msg) \<longrightarrow>
      (\<exists>pre gap g nl.
         line = pre @ ''from '' @ a @ gap @ '' '' @ g @ nl \<and>
         a \<noteq> [] \<and> (\<forall>c\<in>set a. re_class c) \<and> (gap \<noteq> [] \<longrightarrow> \<not> re_class (hd gap)) \<and>
         CHR '' '' \<notin> set gap \<and> g \<noteq> [] \<and> CHR 0x0A \<notin> set g \<and>
         (nl = [] \<or> nl = [CHR 0x0A]) \<and> msg = py_strip g)) \<and>
   (CHR ''f'' \<notin> set p \<and> b \<noteq> [] \<and> (\<forall>c\<in>set b. re_class c) \<and> rest \<noteq> [] \<and>
    CHR 0x0A \<notin> set rest \<longrightarrow>
      handle_line_match (p @ ''from '' @ b @ '' '' @ rest) = Some (b, py_strip rest))"
proof -
  have "\<exists>pre gap g nl.
         line = pre @ ''from '' @ a @ gap @ '' '' @ g @ nl \<and>
         a \<noteq> [] \<and> (\<forall>c\<in>set a. re_class c) \<and> (gap \<noteq> [] \<longrightarrow> \<not> re_class (hd gap)) \<and>
         CHR '' '' \<notin> set gap \<and> g \<noteq> [] \<and> CHR 0x0A \<notin> set g \<and>
         (nl = [] \<or> nl = [CHR 0x0A]) \<and> msg = py_strip g"
    if m: "handle_line_match line = Some (a, msg)"
  proof -
    from m obtain g where s: "re_search line = Some (a, g)" and g: "msg = py_strip g"
      by (auto simp add: handle_line_match_def split: option.splits)
    from re_search_decomp [OF s] obtain pre gap nl where
      "line = pre @ ''from '' @ a @ gap @ '' '' @ g @ nl \<and>
      a \<noteq> [] \<and> (\<forall>c\<in>set a. re_class c) \<and> (gap \<noteq> [] \<longrightarrow> \<not> re_class (hd gap)) \<and>
      CHR '' '' \<notin> set gap \<and> g \<noteq> [] \<and> CHR 0x0A \<notin> set g \<and> (nl = [] \<or> nl = [CHR 0x0A])"
      by blast
    with g show ?thesis by blast
  qed
  moreover have "handle_line_match (p @ ''from '' @ b @ '' '' @ rest) = Some (b, py_strip rest)"
    if "CHR ''f'' \<notin> set p" "b \<noteq> []" "\<forall>c\<in>set b. re_class c" "rest \<noteq> []"
      "CHR 0x0A \<notin> set rest"
    unfolding handle_line_match_def re_search_direct [OF that] by simp
  ultimately show ?thesis by blast
qed

theorem message_text_after_first_space_witness:
  "handle_line_match ''... from fd00::1 says hi'' = Some (''fd00::1'', ''says hi'') \<and>
   (\<exists>pre gap g nl.
      ''... from fd00::1 says hi'' = pre @ ''from '' @ ''fd00::1'' @ gap @ '' '' @ g @ nl \<and>
      CHR '' '' \<notin> set gap \<and> ''says hi'' = py_strip g) \<and>
   CHR ''f'' \<notin> set ''... '' \<and> CHR 0x0A \<notin> set ''says hi'' \<and>
   handle_line_match (''... '' @ ''from '' @ ''fd00::1'' @ '' '' @ ''says hi'') =
     Some (''fd00::1'', py_strip ''says hi'')"
proof -
  have m: "handle_line_match ''... from fd00::1 says hi'' = Some (''fd00::1'', ''says hi'')"
    by code_simp
  have h: "CHR ''f'' \<notin> set ''... '' \<and> ''fd00::1'' \<noteq> [] \<and> (\<forall>c\<in>set ''fd00::1''. re_class c) \<and>
      ''says hi'' \<noteq> [] \<and> CHR 0x0A \<notin> set ''says hi''"
    by (simp add: re_class_def)
  note t = message_text_after_first_space [of "''... from fd00::1 says hi''" "''fd00::1''"
      "''says hi''" "''... ''" "''fd00::1''" "''says hi''"]
  from t m have "\<exists>pre gap g nl.
      ''... from fd00::1 says hi'' = pre @ ''from '' @ ''fd00::1'' @ gap @ '' '' @ g @ nl \<and>
      CHR '' '' \<notin> set gap \<and> ''says hi'' = py_strip g"
    by blast
  moreover from t h have "handle_line_match (''... '' @ ''from '' @ ''fd00::1'' @ '' '' @ ''says hi'') =
     Some (''fd00::1'', py_strip ''says hi'')"
    by blast
  ultimately show ?thesis using m h by blast
qed

end
